theory Spec2Isabelle
  imports Main "HOL-Library.Sublist"
begin

text \<open>
  The link resolvers of \<open>src/App.tsx\<close>: \<open>normalizeExternalUrl\<close>, \<open>parseGoogleMeet\<close>
  and \<open>parseWhatsAppGroupLink\<close>, as HOL functions. Strings, their methods and the
  regular expressions of the source come first, then the three functions, which take
  the platform's URL constructor as an argument, then a model of that constructor after
  the URL standard, and last the properties of the resolvers.
\<close>

section \<open>Strings of the source language\<close>

text \<open>
  A TypeScript string is a sequence of code units. The model uses \<^typ>\<open>string\<close>, one
  \<^typ>\<open>char\<close> per code unit, so it covers the strings whose code units lie in
  U+0000 .. U+00FF; \<open>of_char c\<close> is the code unit's number.
\<close>

definition code_unit :: "char \<Rightarrow> nat" where
  "code_unit c = of_char c"

text \<open>
  \<open>String.prototype.trim\<close> removes white space and line terminators from both ends.
  Below U+0100 these are TAB, LF, VT, FF, CR, SPACE and NBSP.
\<close>

definition is_js_whitespace :: "char \<Rightarrow> bool" where
  "is_js_whitespace c \<longleftrightarrow>
     (9 \<le> code_unit c \<and> code_unit c \<le> 13) \<or> code_unit c = 32 \<or> code_unit c = 160"

definition trim :: "string \<Rightarrow> string" where
  "trim s = rev (dropWhile is_js_whitespace (rev (dropWhile is_js_whitespace s)))"

text \<open>
  \<open>String.prototype.toLowerCase\<close>: below U+0100 the letters with a lower-case form are
  A .. Z and U+00C0 .. U+00DE without the multiplication sign U+00D7; the lower-case
  form is 32 code units higher.
\<close>

definition lower_char :: "char \<Rightarrow> char" where
  "lower_char c =
     (let n = code_unit c in
      if (65 \<le> n \<and> n \<le> 90) \<or> (192 \<le> n \<and> n \<le> 222 \<and> n \<noteq> 215)
      then char_of (n + 32) else c)"

definition toLowerCase :: "string \<Rightarrow> string" where
  "toLowerCase s = map lower_char s"

text \<open>\<open>s.startsWith(p)\<close>.\<close>

definition startsWith :: "string \<Rightarrow> string \<Rightarrow> bool" where
  "startsWith s p \<longleftrightarrow> prefix p s"

text \<open>
  \<open>s.split("/")\<close>: the pieces between the separators, one more than there are
  separators; the empty string splits into one empty piece.
\<close>

fun split_on :: "(char \<Rightarrow> bool) \<Rightarrow> string \<Rightarrow> string list" where
  "split_on sep [] = [[]]"
| "split_on sep (c # cs) =
     (if sep c then [] # split_on sep cs
      else (case split_on sep cs of
              [] \<Rightarrow> [[c]]
            | piece # pieces \<Rightarrow> (c # piece) # pieces))"

section \<open>The regular expressions of the source\<close>

text \<open>
  The class \<open>[a-z]\<close> under the flag \<open>i\<close> (without the flag \<open>u\<close>) matches exactly the
  ASCII letters of either case.
\<close>

definition is_ascii_letter :: "char \<Rightarrow> bool" where
  "is_ascii_letter c \<longleftrightarrow>
     (97 \<le> code_unit c \<and> code_unit c \<le> 122) \<or> (65 \<le> code_unit c \<and> code_unit c \<le> 90)"

text \<open>
  \<open>/^([a-z]{3}-[a-z]{4}-[a-z]{3})$/i\<close>: three, four and three letters between two
  hyphens, anchored at both ends; the result is group 1, the whole match.
\<close>

definition match_meeting_code :: "string \<Rightarrow> string option" where
  "match_meeting_code s =
     (if length s = 12
         \<and> list_all is_ascii_letter (take 3 s)
         \<and> take 1 (drop 3 s) = ''-''
         \<and> list_all is_ascii_letter (take 4 (drop 4 s))
         \<and> take 1 (drop 8 s) = ''-''
         \<and> list_all is_ascii_letter (take 3 (drop 9 s))
      then Some s else None)"

text \<open>\<open>s.replace(/\/+$/, "")\<close>: the run of slashes at the end of \<open>s\<close> is removed.\<close>

definition strip_trailing_slashes :: "string \<Rightarrow> string" where
  "strip_trailing_slashes s = rev (dropWhile (\<lambda>c. c = CHR ''/'') (rev s))"

text \<open>
  \<open>/^\/lookup\/([^/]+)$/i\<close>: the eight characters \<open>/lookup/\<close> in either case, then
  one or more characters other than the slash, up to the end; the result is group 1.
  The letters of \<open>lookup\<close> have no case variant outside ASCII.
\<close>

definition ascii_lower :: "char \<Rightarrow> char" where
  "ascii_lower c =
     (if 65 \<le> code_unit c \<and> code_unit c \<le> 90 then char_of (code_unit c + 32) else c)"

definition match_lookup :: "string \<Rightarrow> string option" where
  "match_lookup s =
     (let group1 = drop 8 s in
      if map ascii_lower (take 8 s) = ''/lookup/'' \<and> group1 \<noteq> [] \<and> CHR ''/'' \<notin> set group1
      then Some group1 else None)"

text \<open>\<open>/^\/([a-z]{3}-[a-z]{4}-[a-z]{3})$/i\<close>: a slash, then a meeting code.\<close>

definition match_code_path :: "string \<Rightarrow> string option" where
  "match_code_path s =
     (case s of
        [] \<Rightarrow> None
      | c # cs \<Rightarrow> if c = CHR ''/'' then match_meeting_code cs else None)"

text \<open>\<open>/^[A-Za-z0-9_-]{10,}$/\<close>: ten or more letters, digits, underscores or hyphens.\<close>

definition is_token_char :: "char \<Rightarrow> bool" where
  "is_token_char c \<longleftrightarrow>
     (65 \<le> code_unit c \<and> code_unit c \<le> 90) \<or> (97 \<le> code_unit c \<and> code_unit c \<le> 122)
     \<or> (48 \<le> code_unit c \<and> code_unit c \<le> 57) \<or> c = CHR ''_'' \<or> c = CHR ''-''"

definition test_invite_token :: "string \<Rightarrow> bool" where
  "test_invite_token s \<longleftrightarrow> 10 \<le> length s \<and> list_all is_token_char s"

section \<open>The URL objects of the platform\<close>

text \<open>
  \<open>new URL(raw)\<close> is the platform's constructor, not code of the repository. It either
  throws a \<open>TypeError\<close> or returns an object, of which the source reads \<open>hostname\<close>,
  \<open>pathname\<close> and \<open>toString()\<close> (the \<open>href\<close>). The resolvers take the constructor as
  their first argument.
\<close>

datatype js_error = TypeError

record URL =
  hostname :: string
  pathname :: string
  href :: string

type_synonym URL_constructor = "string \<Rightarrow> js_error + URL"

section \<open>The generic URL normalizer\<close>

definition normalizeExternalUrl :: "string \<Rightarrow> string" where
  "normalizeExternalUrl raw =
     (let v = trim raw in
      if v = [] then v
      else if startsWith v ''http://'' \<or> startsWith v ''https://'' then v
      else ''https://'' @ v)"

section \<open>The Meet reference resolver\<close>

datatype ParsedMeet =
    Code (url: string) (code: string)
  | Lookup (url: string) (token: string)
  | Url (url: string) (path: string)

text \<open>The branch for the redirect links \<open>g.co/meet/<code>\<close>.\<close>

definition meet_redirect :: "URL \<Rightarrow> ParsedMeet option" where
  "meet_redirect u =
     (let rest = strip_trailing_slashes (drop (length ''/meet/'') (pathname u)) in
      case match_meeting_code rest of
        Some m \<Rightarrow>
          (let c = toLowerCase m in Some (Code (''https://meet.google.com/'' @ c) c))
      | None \<Rightarrow>
          if rest \<noteq> [] then Some (Url (href u) (''/meet/'' @ rest)) else None)"

text \<open>The branch for the primary host, entered once the host is known to be it.\<close>

definition meet_primary :: "URL \<Rightarrow> ParsedMeet option" where
  "meet_primary u =
     (let p = strip_trailing_slashes (pathname u) in
      case match_lookup p of
        Some tok \<Rightarrow> Some (Lookup (''https://meet.google.com/lookup/'' @ tok) tok)
      | None \<Rightarrow>
          (case match_code_path p of
             Some m \<Rightarrow>
               (let c = toLowerCase m in Some (Code (''https://meet.google.com/'' @ c) c))
           | None \<Rightarrow>
               if p \<noteq> [] \<and> p \<noteq> ''/''
               then Some (Url (''https://meet.google.com'' @ p) p)
               else None))"

text \<open>What the \<open>try\<close> block returns once \<open>new URL\<close> has returned \<open>u\<close>.\<close>

definition meet_of_URL :: "URL \<Rightarrow> ParsedMeet option" where
  "meet_of_URL u =
     (if hostname u = ''g.co'' \<and> startsWith (toLowerCase (pathname u)) ''/meet/''
      then meet_redirect u
      else if hostname u \<noteq> ''meet.google.com'' then None
      else meet_primary u)"

text \<open>The string handed to \<open>new URL\<close>: inputs without a scheme are completed.\<close>

definition meet_raw :: "string \<Rightarrow> string" where
  "meet_raw raw0 =
     (if startsWith raw0 ''http://'' \<or> startsWith raw0 ''https://'' then raw0
      else if startsWith raw0 ''meet.google.com/'' \<or> startsWith raw0 ''g.co/meet/''
      then ''https://'' @ raw0
      else raw0)"

text \<open>
  The whole function. The result is \<open>Inl e\<close> when the call throws \<open>e\<close> and \<open>Inr r\<close> when
  it returns \<open>r\<close>, where \<open>None\<close> is \<open>null\<close>. The only operation that can throw is
  \<open>new URL\<close>, inside the \<open>try\<close> block, whose \<open>catch\<close> returns \<open>null\<close>.
\<close>

definition parseGoogleMeet :: "URL_constructor \<Rightarrow> string \<Rightarrow> js_error + ParsedMeet option" where
  "parseGoogleMeet new_URL input =
     (let raw0 = trim input in
      if raw0 = [] then Inr None
      else
        case match_meeting_code raw0 of
          Some m \<Rightarrow>
            (let c = toLowerCase m in
             Inr (Some (Code (''https://meet.google.com/'' @ c) c)))
        | None \<Rightarrow>
            (case new_URL (meet_raw raw0) of
               Inr u \<Rightarrow> Inr (meet_of_URL u)
             | Inl e \<Rightarrow> Inr None))"

section \<open>The group invite resolver\<close>

definition whatsapp_raw :: "string \<Rightarrow> string" where
  "whatsapp_raw raw0 =
     (if startsWith raw0 ''http://'' \<or> startsWith raw0 ''https://'' then raw0
      else if startsWith raw0 ''chat.whatsapp.com/'' then ''https://'' @ raw0
      else raw0)"

text \<open>
  \<open>u.pathname.split("/").filter(Boolean)[0]\<close>: the first piece that is not empty,
  \<open>undefined\<close> (here \<open>None\<close>) when there is none.
\<close>

definition first_segment :: "string \<Rightarrow> string option" where
  "first_segment p =
     (case filter (\<lambda>piece. piece \<noteq> []) (split_on (\<lambda>c. c = CHR ''/'') p) of
        [] \<Rightarrow> None
      | piece # _ \<Rightarrow> Some piece)"

definition whatsapp_of_URL :: "URL \<Rightarrow> string option" where
  "whatsapp_of_URL u =
     (if hostname u \<noteq> ''chat.whatsapp.com'' then None
      else
        case first_segment (pathname u) of
          None \<Rightarrow> None
        | Some tok \<Rightarrow>
            if \<not> test_invite_token tok then None
            else Some (''https://chat.whatsapp.com/'' @ tok))"

definition parseWhatsAppGroupLink :: "URL_constructor \<Rightarrow> string \<Rightarrow> js_error + string option" where
  "parseWhatsAppGroupLink new_URL input =
     (let raw0 = trim input in
      if raw0 = [] then Inr None
      else
        case new_URL (whatsapp_raw raw0) of
          Inr u \<Rightarrow> Inr (whatsapp_of_URL u)
        | Inl e \<Rightarrow> Inr None)"

section \<open>A model of the platform's URL parser\<close>

text \<open>
  Modelled from the WHATWG URL Standard: the basic URL parser run without a base URL,
  which is what \<open>new URL(raw)\<close> does, and the URL serializer behind \<open>hostname\<close>,
  \<open>pathname\<close> and \<open>href\<close>. The model covers a fragment of the standard and says so:
  \<open>whatwg_parse s\<close> is \<open>None\<close> where the model does not describe the parser, and
  otherwise \<open>Some\<close> of what the constructor does. Outside the fragment are: the scheme
  \<open>file\<close>; URLs of a non-special scheme without \<open>//\<close> after the scheme; credentials,
  ports and IPv6 literals; a domain that needs IDNA processing (a code unit outside
  ASCII, a percent escape or a label starting with \<open>xn--\<close>) or that ends in a number
  (an IPv4 address); and any input with a scheme and the character \<open>^\<close>, on which
  editions of the standard differ. The strings are those of this theory: code units
  up to U+00FF.
\<close>

definition is_c0_control_or_space :: "char \<Rightarrow> bool" where
  "is_c0_control_or_space c \<longleftrightarrow> code_unit c \<le> 32"

definition is_ascii_tab_or_newline :: "char \<Rightarrow> bool" where
  "is_ascii_tab_or_newline c \<longleftrightarrow> code_unit c = 9 \<or> code_unit c = 10 \<or> code_unit c = 13"

text \<open>
  The parser first removes leading and trailing C0 controls and spaces, then every
  tab and newline.
\<close>

definition url_preprocess :: "string \<Rightarrow> string" where
  "url_preprocess s =
     filter (\<lambda>c. \<not> is_ascii_tab_or_newline c)
       (rev (dropWhile is_c0_control_or_space (rev (dropWhile is_c0_control_or_space s))))"

definition is_ascii_digit :: "char \<Rightarrow> bool" where
  "is_ascii_digit c \<longleftrightarrow> 48 \<le> code_unit c \<and> code_unit c \<le> 57"

definition is_ascii_hex_digit :: "char \<Rightarrow> bool" where
  "is_ascii_hex_digit c \<longleftrightarrow>
     is_ascii_digit c \<or> (65 \<le> code_unit c \<and> code_unit c \<le> 70)
     \<or> (97 \<le> code_unit c \<and> code_unit c \<le> 102)"

definition is_scheme_char :: "char \<Rightarrow> bool" where
  "is_scheme_char c \<longleftrightarrow>
     is_ascii_letter c \<or> is_ascii_digit c \<or> c = CHR ''+'' \<or> c = CHR ''-'' \<or> c = CHR ''.''"

text \<open>
  Scheme start state and scheme state: a letter, then letters, digits, \<open>+\<close>, \<open>-\<close> and
  \<open>.\<close> up to a colon. Anything else leads to the no scheme state, which fails when
  there is no base URL. The result is the lower-cased scheme and what follows the colon.
\<close>

definition split_scheme :: "string \<Rightarrow> (string \<times> string) option" where
  "split_scheme s =
     (case s of
        [] \<Rightarrow> None
      | c # _ \<Rightarrow>
          if \<not> is_ascii_letter c then None
          else (case dropWhile is_scheme_char s of
                  [] \<Rightarrow> None
                | d # rest \<Rightarrow>
                    if d = CHR '':''
                    then Some (map ascii_lower (takeWhile is_scheme_char s), rest)
                    else None))"

definition is_special_scheme :: "string \<Rightarrow> bool" where
  "is_special_scheme scheme \<longleftrightarrow>
     scheme \<in> set [''ftp'', ''file'', ''http'', ''https'', ''ws'', ''wss'']"

subsection \<open>Percent-encoding\<close>

definition hex_digit :: "nat \<Rightarrow> char" where
  "hex_digit n = ''0123456789ABCDEF'' ! (n mod 16)"

definition percent_byte :: "nat \<Rightarrow> string" where
  "percent_byte n = [CHR ''%'', hex_digit (n div 16), hex_digit n]"

text \<open>
  A code point below U+0080 is one byte of UTF-8, one from U+0080 to U+00FF is two.
\<close>

definition utf8_percent_encode :: "char \<Rightarrow> string" where
  "utf8_percent_encode c =
     (let n = code_unit c in
      if n < 128 then percent_byte n
      else percent_byte (192 + n div 64) @ percent_byte (128 + n mod 64))"

definition percent_encode :: "(char \<Rightarrow> bool) \<Rightarrow> string \<Rightarrow> string" where
  "percent_encode in_set s =
     concat (map (\<lambda>c. if in_set c then utf8_percent_encode c else [c]) s)"

definition c0_control_set :: "char \<Rightarrow> bool" where
  "c0_control_set c \<longleftrightarrow> code_unit c \<le> 31 \<or> 126 < code_unit c"

definition fragment_set :: "char \<Rightarrow> bool" where
  "fragment_set c \<longleftrightarrow> c0_control_set c \<or> c \<in> set [CHR '' '', CHR 0x22, CHR ''<'', CHR ''>'', CHR 0x60]"

definition query_set :: "char \<Rightarrow> bool" where
  "query_set c \<longleftrightarrow> c0_control_set c \<or> c \<in> set [CHR '' '', CHR 0x22, CHR ''#'', CHR ''<'', CHR ''>'']"

definition special_query_set :: "char \<Rightarrow> bool" where
  "special_query_set c \<longleftrightarrow> query_set c \<or> c = CHR 0x27"

definition path_set :: "char \<Rightarrow> bool" where
  "path_set c \<longleftrightarrow> query_set c \<or> c \<in> set [CHR ''?'', CHR ''^'', CHR 0x60, CHR ''{'', CHR ''}'']"

subsection \<open>Hosts\<close>

definition forbidden_host_code_point :: "char \<Rightarrow> bool" where
  "forbidden_host_code_point c \<longleftrightarrow>
     code_unit c \<in> set [0, 9, 10, 13]
     \<or> c \<in> set [CHR '' '', CHR ''#'', CHR ''/'', CHR '':'', CHR ''<'', CHR ''>'', CHR ''?'',
                 CHR ''@'', CHR ''['', CHR 0x5C, CHR '']'', CHR ''^'', CHR ''|'']"

definition forbidden_domain_code_point :: "char \<Rightarrow> bool" where
  "forbidden_domain_code_point c \<longleftrightarrow>
     forbidden_host_code_point c \<or> code_unit c \<le> 31 \<or> c = CHR ''%'' \<or> code_unit c = 127"

text \<open>
  The ends-in-a-number checker: the last label, after one empty label at the end is
  set aside, is made of digits or is \<open>0x\<close> followed by hexadecimal digits.
\<close>

definition is_number_label :: "string \<Rightarrow> bool" where
  "is_number_label l \<longleftrightarrow>
     l \<noteq> [] \<and>
     (list_all is_ascii_digit l
      \<or> (map ascii_lower (take 2 l) = ''0x'' \<and> list_all is_ascii_hex_digit (drop 2 l)))"

definition ends_in_a_number :: "string \<Rightarrow> bool" where
  "ends_in_a_number h =
     (let parts = split_on (\<lambda>c. c = CHR ''.'') h;
          parts' = (if last parts = [] \<and> length parts \<noteq> 1 then butlast parts else parts)
      in is_number_label (last parts'))"

definition needs_idna :: "string \<Rightarrow> bool" where
  "needs_idna h \<longleftrightarrow>
     (\<exists>c \<in> set h. 128 \<le> code_unit c \<or> c = CHR ''%'')
     \<or> (\<exists>l \<in> set (split_on (\<lambda>c. c = CHR ''.'') h). map ascii_lower (take 4 l) = ''xn--'')"

text \<open>
  The host parser. For a special scheme the host is a domain: it is lower-cased, must
  not be empty and must hold no forbidden domain code point. For another scheme it is
  an opaque host: no forbidden host code point, percent-encoded with the C0 control
  set, case kept.
\<close>

definition host_parse :: "bool \<Rightarrow> string \<Rightarrow> (js_error + string) option" where
  "host_parse special h =
     (if special then
        (if h = [] then Some (Inl TypeError)
         else if needs_idna h then None
         else let d = map ascii_lower h in
           if \<exists>c \<in> set d. forbidden_domain_code_point c then Some (Inl TypeError)
           else if ends_in_a_number d then None
           else Some (Inr d))
      else
        (if \<exists>c \<in> set h. forbidden_host_code_point c then Some (Inl TypeError)
         else Some (Inr (percent_encode c0_control_set h))))"

subsection \<open>Paths\<close>

definition is_single_dot :: "string \<Rightarrow> bool" where
  "is_single_dot b \<longleftrightarrow> map ascii_lower b \<in> set [''.'', ''%2e'']"

definition is_double_dot :: "string \<Rightarrow> bool" where
  "is_double_dot b \<longleftrightarrow> map ascii_lower b \<in> set [''..'', ''.%2e'', ''%2e.'', ''%2e%2e'']"

text \<open>
  Path state, one step for each piece of the path between separators; the last piece
  is the one that ends at the end of the path. A double-dot piece removes the last
  segment, a single-dot piece adds nothing, and either leaves an empty segment when
  it is the last piece; any other piece is percent-encoded and appended.
\<close>

fun path_state :: "string list \<Rightarrow> string list \<Rightarrow> string list" where
  "path_state segments [] = segments"
| "path_state segments (piece # pieces) =
     (let buffer = percent_encode path_set piece;
          at_end = (pieces = [])
      in if is_double_dot buffer
         then path_state (butlast segments @ (if at_end then [[]] else [])) pieces
         else if is_single_dot buffer
         then path_state (segments @ (if at_end then [[]] else [])) pieces
         else path_state (segments @ [buffer]) pieces)"

definition is_path_separator :: "bool \<Rightarrow> char \<Rightarrow> bool" where
  "is_path_separator special c \<longleftrightarrow> c = CHR ''/'' \<or> (special \<and> c = CHR 0x5C)"

text \<open>
  Path start state and path state on the text between the host and the query or
  fragment. A special URL always gets a path, the single empty segment when the text
  is empty; the separator that opens the text is consumed.
\<close>

definition parse_path :: "bool \<Rightarrow> string \<Rightarrow> string list" where
  "parse_path special p =
     (case p of
        [] \<Rightarrow> if special then path_state [] [[]] else []
      | c # cs \<Rightarrow>
          path_state [] (split_on (is_path_separator special)
                           (if is_path_separator special c then cs else p)))"

definition serialize_path :: "string list \<Rightarrow> string" where
  "serialize_path segments = concat (map (\<lambda>seg. CHR ''/'' # seg) segments)"

subsection \<open>The parser\<close>

definition is_authority_end :: "bool \<Rightarrow> char \<Rightarrow> bool" where
  "is_authority_end special c \<longleftrightarrow>
     c = CHR ''/'' \<or> c = CHR ''?'' \<or> c = CHR ''#'' \<or> (special \<and> c = CHR 0x5C)"

definition is_path_end :: "char \<Rightarrow> bool" where
  "is_path_end c \<longleftrightarrow> c = CHR ''?'' \<or> c = CHR ''#''"

text \<open>
  Query state and fragment state on what follows the path, with the serializer's
  \<open>?\<close> and \<open>#\<close> put back: the text of \<open>href\<close> after the path.
\<close>

definition serialize_query_fragment :: "bool \<Rightarrow> string \<Rightarrow> string" where
  "serialize_query_fragment special t =
     (let query_part = (case t of
                          [] \<Rightarrow> []
                        | c # cs \<Rightarrow>
                            if c = CHR ''?''
                            then CHR ''?'' # percent_encode
                                   (if special then special_query_set else query_set)
                                   (takeWhile (\<lambda>d. d \<noteq> CHR ''#'') cs)
                            else []);
          fragment_part = (case dropWhile (\<lambda>d. d \<noteq> CHR ''#'') t of
                             [] \<Rightarrow> []
                           | c # cs \<Rightarrow> CHR ''#'' # percent_encode fragment_set cs)
      in query_part @ fragment_part)"

text \<open>
  Authority state to fragment state, on the text after the slashes that follow the
  scheme.
\<close>

definition parse_after_slashes :: "bool \<Rightarrow> string \<Rightarrow> string \<Rightarrow> (js_error + URL) option" where
  "parse_after_slashes special scheme t =
     (let authority = takeWhile (\<lambda>c. \<not> is_authority_end special c) t;
          after = dropWhile (\<lambda>c. \<not> is_authority_end special c) t
      in if \<exists>c \<in> set authority. c = CHR ''@'' \<or> c = CHR '':'' \<or> c = CHR ''[''
         then None
         else
           case host_parse special authority of
             None \<Rightarrow> None
           | Some (Inl e) \<Rightarrow> Some (Inl e)
           | Some (Inr host) \<Rightarrow>
               (let p = serialize_path (parse_path special (takeWhile (\<lambda>c. \<not> is_path_end c) after));
                    qf = serialize_query_fragment special (dropWhile (\<lambda>c. \<not> is_path_end c) after)
                in Some (Inr \<lparr> hostname = host, pathname = p,
                               href = scheme @ ''://'' @ host @ p @ qf \<rparr>)))"

definition whatwg_parse :: "string \<Rightarrow> (js_error + URL) option" where
  "whatwg_parse input =
     (case split_scheme (url_preprocess input) of
        None \<Rightarrow> Some (Inl TypeError)
      | Some (scheme, rest) \<Rightarrow>
          if CHR ''^'' \<in> set input \<or> scheme = ''file'' then None
          else if is_special_scheme scheme
          then parse_after_slashes True scheme
                 (dropWhile (\<lambda>c. c = CHR ''/'' \<or> c = CHR 0x5C) rest)
          else if take 2 rest = ''//''
          then parse_after_slashes False scheme (drop 2 rest)
          else None)"

text \<open>
  A constructor follows the standard when it does what the model says wherever the
  model says something.
\<close>

definition follows_whatwg :: "URL_constructor \<Rightarrow> bool" where
  "follows_whatwg new_URL \<longleftrightarrow> (\<forall>s r. whatwg_parse s = Some r \<longrightarrow> new_URL s = r)"

text \<open>
  One such constructor, for running the resolvers: the model, with a \<open>TypeError\<close>
  wherever the model is silent.
\<close>

definition URL_new :: URL_constructor where
  "URL_new s = (case whatwg_parse s of Some r \<Rightarrow> r | None \<Rightarrow> Inl TypeError)"

text \<open>
  The path texts of the canonical URLs: token characters and slashes only. The parser
  reads such a text as it stands.
\<close>

definition path_text :: "string \<Rightarrow> bool" where
  "path_text s \<longleftrightarrow> (\<forall>c \<in> set s. is_token_char c \<or> c = CHR ''/'')"



section \<open>Characters and strings\<close>

lemma char_of_nat_bits:
  "char_of (n::nat) = Char (odd n) (odd (n div 2)) (odd (n div 4)) (odd (n div 8))
       (odd (n div 16)) (odd (n div 32)) (odd (n div 64)) (odd (n div 128))"
  by (simp add: char_of_def bit_iff_odd_drop_bit drop_bit_eq_div)

lemmas char_class_defs =
  code_unit_def is_js_whitespace_def is_ascii_letter_def is_token_char_def
  is_c0_control_or_space_def is_ascii_tab_or_newline_def is_ascii_digit_def
  is_ascii_hex_digit_def is_scheme_char_def c0_control_set_def fragment_set_def
  query_set_def special_query_set_def path_set_def forbidden_host_code_point_def
  forbidden_domain_code_point_def is_path_separator_def is_authority_end_def
  is_path_end_def

lemma letter_is_token: "is_ascii_letter c \<Longrightarrow> is_token_char c"
  by (auto simp: char_class_defs)

lemma token_char_plain:
  assumes "is_token_char c"
  shows "\<not> is_js_whitespace c" "\<not> is_c0_control_or_space c" "\<not> is_ascii_tab_or_newline c"
    "\<not> path_set c" "\<not> is_path_separator b c" "\<not> is_authority_end b c" "\<not> is_path_end c"
    "c \<noteq> CHR ''/''" "c \<noteq> CHR ''.''" "c \<noteq> CHR ''%''" "c \<noteq> CHR '':''" "c \<noteq> CHR ''^''"
  using assms by (auto simp: char_class_defs)

lemma strip_end_id:
  "s = [] \<or> \<not> P (last s) \<Longrightarrow> rev (dropWhile P (rev s)) = s"
  by (cases s rule: rev_cases) auto

lemma strip_start_id:
  "s = [] \<or> \<not> P (hd s) \<Longrightarrow> dropWhile P s = s"
  by (cases s) auto

lemma split_on_no_sep: "\<forall>c \<in> set t. \<not> sep c \<Longrightarrow> split_on sep t = [t]"
  by (induction t) auto

lemma percent_encode_id: "\<forall>c \<in> set t. \<not> S c \<Longrightarrow> percent_encode S t = t"
  by (induction t) (auto simp: percent_encode_def)


lemma url_preprocess_plain:
  assumes "s \<noteq> []" "\<not> is_c0_control_or_space (hd s)" "\<not> is_c0_control_or_space (last s)"
    "\<forall>c \<in> set s. \<not> is_ascii_tab_or_newline c"
  shows "url_preprocess s = s"
  using assms by (simp add: url_preprocess_def strip_end_id strip_start_id)


lemma code_unit_ascii_lower:
  "code_unit (ascii_lower c) =
     (if 65 \<le> code_unit c \<and> code_unit c \<le> 90 then code_unit c + 32 else code_unit c)"
  by (simp add: ascii_lower_def code_unit_def)

lemma token_char_lower_plain:
  assumes "is_token_char c"
  shows "ascii_lower c \<noteq> CHR ''.''" "ascii_lower c \<noteq> CHR ''%''"
proof -
  have "code_unit (ascii_lower c) \<noteq> 46 \<and> code_unit (ascii_lower c) \<noteq> 37"
    using assms unfolding code_unit_ascii_lower by (auto simp: is_token_char_def code_unit_def)
  then show "ascii_lower c \<noteq> CHR ''.''" "ascii_lower c \<noteq> CHR ''%''"
    by (auto simp: code_unit_def)
qed

lemma not_dot_segment:
  assumes "t = [] \<or> is_token_char (hd t)"
  shows "\<not> is_single_dot t" "\<not> is_double_dot t"
proof -
  have "t = [] \<or> (ascii_lower (hd t) \<noteq> CHR ''.'' \<and> ascii_lower (hd t) \<noteq> CHR ''%'')"
    using assms token_char_lower_plain by blast
  then show "\<not> is_single_dot t" "\<not> is_double_dot t"
    by (cases t; auto simp: is_single_dot_def is_double_dot_def)+
qed



lemma split_on_not_Nil: "split_on sep s \<noteq> []"
  by (induction s) (auto split: list.splits)

lemma split_on_pieces_all:
  "\<forall>p \<in> set (split_on sep s). \<forall>c \<in> set p. c \<in> set s \<and> \<not> sep c"
proof (induction s)
  case Nil
  then show ?case by simp
next
  case (Cons a s)
  obtain p ps where ps: "split_on sep s = p # ps"
    using split_on_not_Nil by (cases "split_on sep s") auto
  show ?case using Cons ps by (cases "sep a") auto
qed

lemma split_on_pieces_subset:
  "p \<in> set (split_on sep s) \<Longrightarrow> c \<in> set p \<Longrightarrow> c \<in> set s \<and> \<not> sep c"
  using split_on_pieces_all by blast

lemma serialize_split_on:
  "\<forall>c \<in> set s. sep c \<longleftrightarrow> c = CHR ''/'' \<Longrightarrow>
     serialize_path (split_on sep s) = CHR ''/'' # s"
proof (induction s)
  case Nil
  then show ?case by (simp add: serialize_path_def)
next
  case (Cons c cs)
  then have IH: "serialize_path (split_on sep cs) = CHR ''/'' # cs" by simp
  show ?case
  proof (cases "sep c")
    case True
    with Cons.prems have "c = CHR ''/''" by simp
    with True IH show ?thesis by (simp add: serialize_path_def)
  next
    case False
    obtain p ps where ps: "split_on sep cs = p # ps"
      using split_on_not_Nil by (cases "split_on sep cs") auto
    with IH have "p @ concat (map ((#) CHR ''/'') ps) = cs"
      by (simp add: serialize_path_def)
    with False ps show ?thesis by (simp add: serialize_path_def)
  qed
qed

lemma path_state_plain:
  "\<forall>p \<in> set pieces. \<forall>c \<in> set p. is_token_char c \<Longrightarrow> path_state segs pieces = segs @ pieces"
proof (induction pieces arbitrary: segs)
  case Nil
  then show ?case by simp
next
  case (Cons p ps)
  have plain: "\<forall>c \<in> set p. is_token_char c" using Cons.prems by simp
  have enc: "percent_encode path_set p = p"
    using plain token_char_plain(4) by (intro percent_encode_id) blast
  have hd: "p = [] \<or> is_token_char (hd p)" using plain by (cases p) auto
  have "path_state segs (p # ps) = path_state (segs @ [p]) ps"
    by (simp add: enc not_dot_segment[OF hd])
  also have "\<dots> = (segs @ [p]) @ ps" using Cons.prems by (intro Cons.IH) simp
  finally show ?case by simp
qed


lemma parse_path_text:
  assumes "path_text rest"
  shows "serialize_path (parse_path True (CHR ''/'' # rest)) = CHR ''/'' # rest"
proof -
  let ?sep = "is_path_separator True"
  have sep: "\<forall>c \<in> set rest. ?sep c \<longleftrightarrow> c = CHR ''/''"
    using assms token_char_plain(5) by (auto simp: path_text_def is_path_separator_def)
  have plain: "\<forall>p \<in> set (split_on ?sep rest). \<forall>c \<in> set p. is_token_char c"
    using assms split_on_pieces_subset[of _ ?sep rest] unfolding path_text_def
    by (metis is_path_separator_def)
  have "parse_path True (CHR ''/'' # rest) = path_state [] (split_on ?sep rest)"
    by (simp add: parse_path_def is_path_separator_def)
  also have "\<dots> = split_on ?sep rest" using path_state_plain[OF plain] by simp
  finally show ?thesis using serialize_split_on[OF sep] by simp
qed

section \<open>The parser model on canonical URLs\<close>

lemmas host_eval_defs = host_parse_def needs_idna_def ends_in_a_number_def is_number_label_def
      forbidden_domain_code_point_def forbidden_host_code_point_def ascii_lower_def code_unit_def
      is_ascii_digit_def is_ascii_hex_digit_def

lemma host_parse_known:
  "host_parse True ''g.co'' = Some (Inr ''g.co'')"
  "host_parse True ''meet.google.com'' = Some (Inr ''meet.google.com'')"
  "host_parse True ''chat.whatsapp.com'' = Some (Inr ''chat.whatsapp.com'')"
  by (simp_all add: host_eval_defs)

lemma slash_plain:
  "\<not> is_path_end CHR ''/''" "\<not> is_ascii_tab_or_newline CHR ''/''"
  "\<not> is_c0_control_or_space CHR ''/''" "\<not> is_js_whitespace CHR ''/''"
  by (simp_all add: is_path_end_def is_ascii_tab_or_newline_def is_c0_control_or_space_def
      is_js_whitespace_def code_unit_def)

lemma path_text_chars:
  assumes "path_text rest" "c \<in> set rest"
  shows "\<not> is_path_end c" "\<not> is_ascii_tab_or_newline c" "\<not> is_c0_control_or_space c" "c \<noteq> CHR ''^''"
proof -
  have "is_token_char c \<or> c = CHR ''/''" using assms by (simp add: path_text_def)
  then show "\<not> is_path_end c" "\<not> is_ascii_tab_or_newline c" "\<not> is_c0_control_or_space c"
    "c \<noteq> CHR ''^''"
    using token_char_plain(2,3,7,12)[of c] slash_plain by auto
qed

lemma after_host:
  assumes "path_text rest"
  shows "takeWhile (\<lambda>c. \<not> is_path_end c) (CHR ''/'' # rest) = CHR ''/'' # rest"
    "dropWhile (\<lambda>c. \<not> is_path_end c) (CHR ''/'' # rest) = []"
  using path_text_chars(1)[OF assms] by (auto simp: is_path_end_def)


lemma known_host_facts:
  assumes "host \<in> set [''g.co'', ''meet.google.com'', ''chat.whatsapp.com'']"
  shows "host_parse True host = Some (Inr host)"
    "takeWhile (\<lambda>c. \<not> is_authority_end True c) (host @ CHR ''/'' # rest) = host"
    "dropWhile (\<lambda>c. \<not> is_authority_end True c) (host @ CHR ''/'' # rest) = CHR ''/'' # rest"
    "dropWhile (\<lambda>c. c = CHR ''/'' \<or> c = CHR 0x5C) (host @ t) = host @ t"
    "\<forall>c \<in> set host. \<not> is_ascii_tab_or_newline c \<and> c \<noteq> CHR ''^'' \<and> c \<noteq> CHR ''@''
        \<and> c \<noteq> CHR '':'' \<and> c \<noteq> CHR ''[''"
  using assms host_parse_known
  by (auto simp: is_authority_end_def is_ascii_tab_or_newline_def code_unit_def)

lemma parse_after_slashes_simple:
  assumes "host \<in> set [''g.co'', ''meet.google.com'', ''chat.whatsapp.com'']" "path_text rest"
  shows "parse_after_slashes True ''https'' (host @ CHR ''/'' # rest) =
     Some (Inr \<lparr> hostname = host, pathname = CHR ''/'' # rest,
                  href = ''https://'' @ host @ CHR ''/'' # rest \<rparr>)"
proof -
  note h = known_host_facts[OF assms(1)]
  have "\<not> (\<exists>c \<in> set host. c = CHR ''@'' \<or> c = CHR '':'' \<or> c = CHR ''['')"
    using h(5) by blast
  then show ?thesis
    unfolding parse_after_slashes_def h(2) h(3) Let_def after_host[OF assms(2)]
      parse_path_text[OF assms(2)]
    by (simp add: h(1) serialize_query_fragment_def)
qed

lemma split_scheme_https:
  "split_scheme (''https://'' @ t) = Some (''https'', ''//'' @ t)"
  by (simp add: split_scheme_def is_scheme_char_def is_ascii_letter_def is_ascii_digit_def
      ascii_lower_def code_unit_def)

lemma whatwg_parse_simple:
  assumes "host \<in> set [''g.co'', ''meet.google.com'', ''chat.whatsapp.com'']" "path_text rest"
  shows "whatwg_parse (''https://'' @ host @ CHR ''/'' # rest) =
     Some (Inr \<lparr> hostname = host, pathname = CHR ''/'' # rest,
                  href = ''https://'' @ host @ CHR ''/'' # rest \<rparr>)"
proof -
  let ?s = "''https://'' @ host @ CHR ''/'' # rest"
  note h = known_host_facts[OF assms(1)]
  have last: "\<not> is_c0_control_or_space (last ?s)"
    using path_text_chars(3)[OF assms(2)] slash_plain(3) by (cases rest rule: rev_cases) auto
  have tabs: "\<forall>c \<in> set ?s. \<not> is_ascii_tab_or_newline c"
    using path_text_chars(2)[OF assms(2)] h(5) slash_plain(2)
    by (auto simp: is_ascii_tab_or_newline_def code_unit_def)
  have pre: "url_preprocess ?s = ?s"
    by (rule url_preprocess_plain) (use last tabs in \<open>auto simp: is_c0_control_or_space_def code_unit_def\<close>)
  have caret: "CHR ''^'' \<notin> set ?s"
    using path_text_chars(4)[OF assms(2)] h(5) by auto
  have sch: "split_scheme ?s = Some (''https'', ''//'' @ host @ CHR ''/'' # rest)"
    using split_scheme_https[of "host @ CHR ''/'' # rest"] by simp
  have sl: "dropWhile (\<lambda>c. c = CHR ''/'' \<or> c = CHR 0x5C) (''//'' @ host @ CHR ''/'' # rest)
              = host @ CHR ''/'' # rest"
    using h(4)[of "CHR ''/'' # rest"] by simp
  show ?thesis
    unfolding whatwg_parse_def pre sch
    using caret sl parse_after_slashes_simple[OF assms]
    by (simp add: is_special_scheme_def)
qed

section \<open>The generic URL normalizer: contract\<close>

lemma rev_strip_split:
  "xs = rev (dropWhile P (rev xs)) @ rev (takeWhile P (rev xs))"
proof -
  have "rev (rev xs) = rev (takeWhile P (rev xs) @ dropWhile P (rev xs))"
    by (simp only: takeWhile_dropWhile_id)
  then show ?thesis by (simp only: rev_rev_ident rev_append)
qed

lemma trim_decomposition:
  "\<exists>a b. raw = a @ trim raw @ b \<and> list_all is_js_whitespace a \<and> list_all is_js_whitespace b"
proof -
  let ?ws = is_js_whitespace
  let ?m = "dropWhile ?ws raw"
  have 1: "raw = takeWhile ?ws raw @ ?m" by simp
  have 2: "?m = trim raw @ rev (takeWhile ?ws (rev ?m))"
    unfolding trim_def by (rule rev_strip_split)
  have a: "list_all ?ws (takeWhile ?ws raw)"
    by (simp add: list_all_iff) (meson set_takeWhileD)
  have b: "list_all ?ws (rev (takeWhile ?ws (rev ?m)))"
    by (simp add: list_all_iff) (meson set_takeWhileD)
  from 1 2 have "raw = takeWhile ?ws raw @ trim raw @ rev (takeWhile ?ws (rev ?m))" by simp
  with a b show ?thesis by blast
qed

lemma trim_ends:
  assumes "trim raw \<noteq> []"
  shows "\<not> is_js_whitespace (hd (trim raw))" "\<not> is_js_whitespace (last (trim raw))"
proof -
  let ?ws = is_js_whitespace
  let ?m = "dropWhile ?ws raw"
  have ne: "dropWhile ?ws (rev ?m) \<noteq> []" using assms by (simp add: trim_def)
  have "last (trim raw) = hd (dropWhile ?ws (rev ?m))"
    using ne by (simp add: trim_def last_rev)
  then show "\<not> ?ws (last (trim raw))" using ne hd_dropWhile by metis
  have m: "?m = trim raw @ rev (takeWhile ?ws (rev ?m))"
    unfolding trim_def by (rule rev_strip_split)
  then have "?m \<noteq> []" using assms by (metis append_is_Nil_conv)
  then have "\<not> ?ws (hd ?m)" using hd_dropWhile by metis
  moreover have "hd ?m = hd (trim raw)" using m assms by (metis hd_append2)
  ultimately show "\<not> ?ws (hd (trim raw))" by simp
qed

text \<open>
  Claim C8. \<open>normalizeExternalUrl\<close> trims its input: the trimmed string is the input
  without a run of white space at either end, and it neither starts nor ends with white
  space. An empty trimmed string is returned as the empty string; one that starts with
  \<open>http://\<close> or \<open>https://\<close> is returned unchanged; any other gets \<open>https://\<close>
  in front. Nothing else is checked or changed.
\<close>

theorem normalizeExternalUrl_contract:
  "(\<exists>a b. raw = a @ trim raw @ b \<and> list_all is_js_whitespace a \<and> list_all is_js_whitespace b)
   \<and> (trim raw \<noteq> [] \<longrightarrow>
        \<not> is_js_whitespace (hd (trim raw)) \<and> \<not> is_js_whitespace (last (trim raw)))
   \<and> (trim raw = [] \<longrightarrow> normalizeExternalUrl raw = [])
   \<and> (trim raw \<noteq> [] \<and> (prefix ''http://'' (trim raw) \<or> prefix ''https://'' (trim raw)) \<longrightarrow>
        normalizeExternalUrl raw = trim raw)
   \<and> (trim raw \<noteq> [] \<and> \<not> prefix ''http://'' (trim raw) \<and> \<not> prefix ''https://'' (trim raw) \<longrightarrow>
        normalizeExternalUrl raw = ''https://'' @ trim raw)"
  using trim_decomposition[of raw] trim_ends[of raw]
  by (simp add: normalizeExternalUrl_def startsWith_def Let_def)

lemmas trim_eval = trim_def is_js_whitespace_def code_unit_def

theorem normalizeExternalUrl_contract_witness:
  "trim ''  example.com/x '' = ''example.com/x''
   \<and> normalizeExternalUrl ''  example.com/x '' = ''https://example.com/x''
   \<and> normalizeExternalUrl '' http://example.com'' = ''http://example.com''
   \<and> normalizeExternalUrl ''   '' = []"
  using normalizeExternalUrl_contract[of "''  example.com/x ''"]
    normalizeExternalUrl_contract[of "'' http://example.com''"]
    normalizeExternalUrl_contract[of "''   ''"]
  by (simp add: trim_eval)

section \<open>The Meet reference resolver: bare codes\<close>

lemma code_unit_lower_char:
  "code_unit (lower_char c) =
     (if (65 \<le> code_unit c \<and> code_unit c \<le> 90)
         \<or> (192 \<le> code_unit c \<and> code_unit c \<le> 222 \<and> code_unit c \<noteq> 215)
      then code_unit c + 32 else code_unit c)"
  by (auto simp: lower_char_def code_unit_def Let_def)

lemma code_unit_inject: "code_unit c = code_unit d \<longleftrightarrow> c = d"
  by (simp add: code_unit_def)

lemma lower_char_classes:
  "is_js_whitespace (lower_char c) \<longleftrightarrow> is_js_whitespace c"
  "is_ascii_letter (lower_char c) \<longleftrightarrow> is_ascii_letter c"
  "is_ascii_letter c \<Longrightarrow> 97 \<le> code_unit (lower_char c) \<and> code_unit (lower_char c) \<le> 122"
  by (auto simp: is_js_whitespace_def is_ascii_letter_def code_unit_lower_char)

lemma lower_char_hyphen: "lower_char c = CHR ''-'' \<longleftrightarrow> c = CHR ''-''"
proof -
  have "code_unit (lower_char c) = 45 \<longleftrightarrow> code_unit c = 45"
    by (auto simp: code_unit_lower_char)
  then show ?thesis
    unfolding code_unit_inject[symmetric, of _ "CHR ''-''"] by (simp add: code_unit_def)
qed

lemma trim_toLowerCase: "trim (toLowerCase s) = toLowerCase (trim s)"
proof -
  have "is_js_whitespace \<circ> lower_char = is_js_whitespace"
    by (rule ext) (simp add: lower_char_classes)
  then have dw: "dropWhile is_js_whitespace (map lower_char xs)
                   = map lower_char (dropWhile is_js_whitespace xs)" for xs
    by (simp add: dropWhile_map)
  show ?thesis
    by (simp add: trim_def toLowerCase_def dw rev_map)
qed

lemma hyphen_piece_lower:
  "take 1 (drop n (map lower_char s)) = ''-'' \<longleftrightarrow> take 1 (drop n s) = ''-''"
proof -
  have "take 1 (drop n (map lower_char s)) = map lower_char (take 1 (drop n s))"
    by (simp add: take_map drop_map)
  then show ?thesis
    by (cases "take 1 (drop n s)") (auto simp: lower_char_hyphen)
qed

lemma letters_piece_lower:
  "list_all is_ascii_letter (take k (drop n (map lower_char s)))
     \<longleftrightarrow> list_all is_ascii_letter (take k (drop n s))"
    "list_all is_ascii_letter (take k (map lower_char s))
     \<longleftrightarrow> list_all is_ascii_letter (take k s)"
  by (simp_all add: take_map drop_map list_all_iff lower_char_classes)

lemma match_meeting_code_Some: "match_meeting_code s = Some m \<Longrightarrow> m = s \<and> length s = 12"
  by (auto simp: match_meeting_code_def split: if_splits)

lemma match_meeting_code_toLowerCase:
  "match_meeting_code (toLowerCase s) = None \<longleftrightarrow> match_meeting_code s = None"
  unfolding match_meeting_code_def toLowerCase_def
  by (simp only: length_map hyphen_piece_lower letters_piece_lower) auto

lemma match_meeting_code_grammar:
  assumes "length a = 3" "length b = 4" "length c = 3" "list_all is_ascii_letter (a @ b @ c)"
  shows "match_meeting_code (a @ ''-'' @ b @ ''-'' @ c) = Some (a @ ''-'' @ b @ ''-'' @ c)"
  using assms by (simp add: match_meeting_code_def)

lemma parseGoogleMeet_bare_code:
  assumes "match_meeting_code (trim input) \<noteq> None"
  shows "parseGoogleMeet new_URL input =
     Inr (Some (Code (''https://meet.google.com/'' @ toLowerCase (trim input))
                     (toLowerCase (trim input))))"
proof -
  obtain m where m: "match_meeting_code (trim input) = Some m" using assms by auto
  then have "m = trim input" "trim input \<noteq> []"
    using match_meeting_code_Some by fastforce+
  with m show ?thesis by (simp add: parseGoogleMeet_def Let_def)
qed

text \<open>
  Claim C4. Let the trimmed input be three, four and three ASCII letters of any case
  joined by hyphens. Then \<open>parseGoogleMeet\<close> returns the \<open>Code\<close> variant, whose code is
  the trimmed input in lower case (every letter of it lies in \<open>a\<close> .. \<open>z\<close>) and whose
  \<open>url\<close> is \<open>https://meet.google.com/\<close> followed by that code; and every input that
  differs from this one only in letter case gives the same result.
\<close>

theorem bare_code_case_normalization:
  assumes "trim input = a @ ''-'' @ b @ ''-'' @ c"
    and "length a = 3" "length b = 4" "length c = 3"
    and "list_all is_ascii_letter (a @ b @ c)"
  shows "parseGoogleMeet new_URL input =
           Inr (Some (Code (''https://meet.google.com/'' @ toLowerCase (trim input))
                           (toLowerCase (trim input))))
       \<and> toLowerCase (trim input) = toLowerCase a @ ''-'' @ toLowerCase b @ ''-'' @ toLowerCase c
       \<and> (\<forall>ch \<in> set (toLowerCase a @ toLowerCase b @ toLowerCase c).
             97 \<le> code_unit ch \<and> code_unit ch \<le> 122)
       \<and> (\<forall>input'. toLowerCase input' = toLowerCase input \<longrightarrow>
             parseGoogleMeet new_URL input' = parseGoogleMeet new_URL input)"
proof -
  have code: "match_meeting_code (trim input) \<noteq> None"
    using match_meeting_code_grammar[OF assms(2-5)] assms(1) by simp
  have 1: "parseGoogleMeet new_URL input =
           Inr (Some (Code (''https://meet.google.com/'' @ toLowerCase (trim input))
                           (toLowerCase (trim input))))"
    by (rule parseGoogleMeet_bare_code[OF code])
  have 2: "toLowerCase (trim input) = toLowerCase a @ ''-'' @ toLowerCase b @ ''-'' @ toLowerCase c"
    unfolding assms(1) by (simp add: toLowerCase_def lower_char_hyphen)
  have 3: "\<forall>ch \<in> set (toLowerCase a @ toLowerCase b @ toLowerCase c).
             97 \<le> code_unit ch \<and> code_unit ch \<le> 122"
    using assms(5) lower_char_classes(3) by (auto simp: toLowerCase_def list_all_iff)
  have 4: "parseGoogleMeet new_URL input' = parseGoogleMeet new_URL input"
    if eq: "toLowerCase input' = toLowerCase input" for input'
  proof -
    have t: "toLowerCase (trim input') = toLowerCase (trim input)"
      using eq trim_toLowerCase by metis
    have "match_meeting_code (toLowerCase (trim input)) \<noteq> None"
      by (simp add: match_meeting_code_toLowerCase code)
    then have "match_meeting_code (trim input') \<noteq> None"
      unfolding t[symmetric] by (simp add: match_meeting_code_toLowerCase)
    from parseGoogleMeet_bare_code[OF this] 1 t show ?thesis by simp
  qed
  from 1 2 3 4 show ?thesis by blast
qed

lemmas code_eval = parseGoogleMeet_def trim_eval match_meeting_code_def is_ascii_letter_def
  toLowerCase_def lower_char_def char_of_nat_bits Let_def

theorem bare_code_case_normalization_witness:
  "trim '' ABC-defg-HIJ '' = ''ABC'' @ ''-'' @ ''defg'' @ ''-'' @ ''HIJ''
   \<and> parseGoogleMeet URL_new '' ABC-defg-HIJ '' =
       Inr (Some (Code ''https://meet.google.com/abc-defg-hij'' ''abc-defg-hij''))
   \<and> parseGoogleMeet URL_new '' abc-DEFG-hij '' = parseGoogleMeet URL_new '' ABC-defg-HIJ ''"
proof -
  have t: "trim '' ABC-defg-HIJ '' = ''ABC'' @ ''-'' @ ''defg'' @ ''-'' @ ''HIJ''"
    by (simp add: trim_eval)
  have l: "list_all is_ascii_letter (''ABC'' @ ''defg'' @ ''HIJ'')"
    by (simp add: is_ascii_letter_def code_unit_def)
  have lc: "toLowerCase '' abc-DEFG-hij '' = toLowerCase '' ABC-defg-HIJ ''"
    by (simp add: toLowerCase_def lower_char_def code_unit_def char_of_nat_bits)
  from bare_code_case_normalization[OF t _ _ _ l, of URL_new] lc t show ?thesis
    by (simp add: toLowerCase_def lower_char_def code_unit_def char_of_nat_bits)
qed

section \<open>What a constructor that follows the standard does\<close>

lemma set_strip_subset: "set (rev (dropWhile P (rev (dropWhile P s)))) \<subseteq> set s"
proof
  fix x assume "x \<in> set (rev (dropWhile P (rev (dropWhile P s))))"
  then have "x \<in> set (dropWhile P (rev (dropWhile P s)))" by simp
  then have "x \<in> set (rev (dropWhile P s))" by (rule set_dropWhileD)
  then have "x \<in> set (dropWhile P s)" by simp
  then show "x \<in> set s" by (rule set_dropWhileD)
qed

lemma set_url_preprocess: "set (url_preprocess s) \<subseteq> set s"
  unfolding url_preprocess_def using set_strip_subset[of is_c0_control_or_space s] by auto

lemma split_scheme_colon:
  assumes "split_scheme x = Some (scheme, rest)"
  shows "CHR '':'' \<in> set x"
proof -
  from assms obtain d r where "dropWhile is_scheme_char x = d # r" "d = CHR '':''"
    by (auto simp: split_scheme_def split: list.splits if_splits)
  then have "CHR '':'' \<in> set (dropWhile is_scheme_char x)" by simp
  then show ?thesis using set_dropWhileD by fastforce
qed

lemma whatwg_parse_no_colon:
  assumes "CHR '':'' \<notin> set s"
  shows "whatwg_parse s = Some (Inl TypeError)"
proof -
  have "CHR '':'' \<notin> set (url_preprocess s)" using assms set_url_preprocess by blast
  then have "split_scheme (url_preprocess s) = None"
    using split_scheme_colon by (cases "split_scheme (url_preprocess s)") auto
  then show ?thesis by (simp add: whatwg_parse_def)
qed

lemma follows_whatwg_no_colon:
  "follows_whatwg new_URL \<Longrightarrow> CHR '':'' \<notin> set s \<Longrightarrow> new_URL s = Inl TypeError"
  using whatwg_parse_no_colon by (simp add: follows_whatwg_def)

lemma follows_whatwg_simple:
  assumes "follows_whatwg new_URL"
    and "host \<in> set [''g.co'', ''meet.google.com'', ''chat.whatsapp.com'']" "path_text rest"
  shows "new_URL (''https://'' @ host @ CHR ''/'' # rest) =
     Inr \<lparr> hostname = host, pathname = CHR ''/'' # rest,
           href = ''https://'' @ host @ CHR ''/'' # rest \<rparr>"
  using whatwg_parse_simple[OF assms(2,3)] assms(1) by (simp add: follows_whatwg_def)

lemma URL_new_follows_whatwg: "follows_whatwg URL_new"
  by (simp add: follows_whatwg_def URL_new_def)

lemma meeting_code_chars:
  assumes "match_meeting_code s = Some m"
  shows "\<forall>c \<in> set s. is_ascii_letter c \<or> c = CHR ''-''"
proof -
  from assms have len: "length s = 12"
    and a: "list_all is_ascii_letter (take 3 s)" and h1: "take 1 (drop 3 s) = ''-''"
    and b: "list_all is_ascii_letter (take 4 (drop 4 s))" and h2: "take 1 (drop 8 s) = ''-''"
    and c: "list_all is_ascii_letter (take 3 (drop 9 s))"
    by (auto simp: match_meeting_code_def split: if_splits)
  have 1: "s = take 3 s @ drop 3 s" by simp
  have 2: "drop 3 s = take 1 (drop 3 s) @ drop 4 s"
    using append_take_drop_id[of 1 "drop 3 s"] by simp
  have 3: "drop 4 s = take 4 (drop 4 s) @ drop 8 s"
    using append_take_drop_id[of 4 "drop 4 s"] by simp
  have 4: "drop 8 s = take 1 (drop 8 s) @ drop 9 s"
    using append_take_drop_id[of 1 "drop 8 s"] by simp
  have 5: "drop 9 s = take 3 (drop 9 s)" using len by simp
  have s1: "set s = set (take 3 s) \<union> set (drop 3 s)" using 1 set_append by metis
  have s2: "set (drop 3 s) = set ''-'' \<union> set (drop 4 s)" using 2 h1 set_append by metis
  have s3: "set (drop 4 s) = set (take 4 (drop 4 s)) \<union> set (drop 8 s)"
    using 3 set_append by metis
  have s4: "set (drop 8 s) = set ''-'' \<union> set (drop 9 s)" using 4 h2 set_append by metis
  have "set s = set (take 3 s) \<union> {CHR ''-''} \<union> set (take 4 (drop 4 s)) \<union> set (take 3 (drop 9 s))"
    unfolding s1 s2 s3 s4 using 5 by auto
  then show ?thesis using a b c by (auto simp: list_all_iff)
qed

section \<open>The resolvers never throw\<close>

lemma meet_raw_bare_code:
  assumes "match_meeting_code s = Some m"
  shows "CHR '':'' \<notin> set s" "meet_raw s = s"
proof -
  have chars: "\<forall>c \<in> set s. is_ascii_letter c \<or> c = CHR ''-''"
    by (rule meeting_code_chars[OF assms])
  have no: "CHR '':'' \<notin> set s \<and> CHR ''.'' \<notin> set s"
    using chars by (auto simp: is_ascii_letter_def code_unit_def)
  then show "CHR '':'' \<notin> set s" by simp
  have "\<not> prefix p s" if "CHR '':'' \<in> set p \<or> CHR ''.'' \<in> set p" for p
    using that no set_mono_prefix by blast
  then show "meet_raw s = s" by (simp add: meet_raw_def startsWith_def)
qed

lemma meet_raw_Nil: "meet_raw [] = []"
  by (simp add: meet_raw_def startsWith_def)

lemma whatsapp_raw_Nil: "whatsapp_raw [] = []"
  by (simp add: whatsapp_raw_def startsWith_def)

lemma parseGoogleMeet_of_URL:
  assumes "follows_whatwg new_URL" "new_URL (meet_raw (trim input)) = Inr u"
  shows "parseGoogleMeet new_URL input = Inr (meet_of_URL u)"
proof -
  have ne: "trim input \<noteq> []"
  proof
    assume "trim input = []"
    then have "new_URL (meet_raw (trim input)) = Inl TypeError"
      using follows_whatwg_no_colon[OF assms(1), of "[]"] by (simp add: meet_raw_Nil)
    with assms(2) show False by simp
  qed
  have "match_meeting_code (trim input) = None"
  proof (cases "match_meeting_code (trim input)")
    case (Some m)
    from meet_raw_bare_code[OF Some] follows_whatwg_no_colon[OF assms(1)]
    have "new_URL (meet_raw (trim input)) = Inl TypeError" by simp
    with assms(2) show ?thesis by simp
  qed simp
  with ne assms(2) show ?thesis by (simp add: parseGoogleMeet_def Let_def)
qed

lemma parseWhatsAppGroupLink_of_URL:
  assumes "follows_whatwg new_URL" "new_URL (whatsapp_raw (trim input)) = Inr u"
  shows "parseWhatsAppGroupLink new_URL input = Inr (whatsapp_of_URL u)"
proof -
  have ne: "trim input \<noteq> []"
  proof
    assume "trim input = []"
    then have "new_URL (whatsapp_raw (trim input)) = Inl TypeError"
      using follows_whatwg_no_colon[OF assms(1), of "[]"] by (simp add: whatsapp_raw_Nil)
    with assms(2) show False by simp
  qed
  with assms(2) show ?thesis by (simp add: parseWhatsAppGroupLink_def Let_def)
qed

lemma parseGoogleMeet_Some:
  assumes "parseGoogleMeet new_URL input = Inr (Some r)"
  shows "(match_meeting_code (trim input) \<noteq> None
            \<and> r = Code (''https://meet.google.com/'' @ toLowerCase (trim input))
                        (toLowerCase (trim input)))
       \<or> (match_meeting_code (trim input) = None \<and> trim input \<noteq> []
            \<and> (\<exists>u. new_URL (meet_raw (trim input)) = Inr u \<and> meet_of_URL u = Some r))"
proof (cases "match_meeting_code (trim input)")
  case None
  with assms show ?thesis
    by (auto simp: parseGoogleMeet_def Let_def split: if_splits sum.splits)
next
  case (Some m)
  then have "match_meeting_code (trim input) \<noteq> None" by simp
  from parseGoogleMeet_bare_code[OF this, of new_URL] assms Some show ?thesis by simp
qed

text \<open>
  Claim C9. Neither resolver ever throws: whatever the URL constructor does, each
  call returns, with a result or with \<open>null\<close>. When the constructor throws, the
  resolver returns \<open>null\<close>; when the constructor returns a URL on a host the resolver
  does not know, it returns \<open>null\<close> as well, so the two failures cannot be told apart.
\<close>

theorem resolvers_never_throw:
  "(\<exists>r. parseGoogleMeet new_URL input = Inr r)
   \<and> (\<exists>r. parseWhatsAppGroupLink new_URL input = Inr r)
   \<and> (match_meeting_code (trim input) = None \<and> new_URL (meet_raw (trim input)) = Inl e
        \<longrightarrow> parseGoogleMeet new_URL input = Inr None)
   \<and> (match_meeting_code (trim input) = None \<and> new_URL (meet_raw (trim input)) = Inr u
        \<and> hostname u \<noteq> ''g.co'' \<and> hostname u \<noteq> ''meet.google.com''
        \<longrightarrow> parseGoogleMeet new_URL input = Inr None)
   \<and> (new_URL (whatsapp_raw (trim input)) = Inl e
        \<longrightarrow> parseWhatsAppGroupLink new_URL input = Inr None)
   \<and> (new_URL (whatsapp_raw (trim input)) = Inr u \<and> hostname u \<noteq> ''chat.whatsapp.com''
        \<longrightarrow> parseWhatsAppGroupLink new_URL input = Inr None)"
proof -
  have 1: "\<exists>r. parseGoogleMeet new_URL input = Inr r"
    by (simp add: parseGoogleMeet_def Let_def split: option.splits sum.splits)
  have 2: "\<exists>r. parseWhatsAppGroupLink new_URL input = Inr r"
    by (simp add: parseWhatsAppGroupLink_def Let_def split: sum.splits)
  have 3: "parseGoogleMeet new_URL input = Inr None"
    if "match_meeting_code (trim input) = None" "new_URL (meet_raw (trim input)) = Inl e"
    using that by (simp add: parseGoogleMeet_def Let_def)
  have 4: "parseGoogleMeet new_URL input = Inr None"
    if "match_meeting_code (trim input) = None" "new_URL (meet_raw (trim input)) = Inr u"
      "hostname u \<noteq> ''g.co''" "hostname u \<noteq> ''meet.google.com''"
    using that by (simp add: parseGoogleMeet_def meet_of_URL_def Let_def)
  have 5: "parseWhatsAppGroupLink new_URL input = Inr None"
    if "new_URL (whatsapp_raw (trim input)) = Inl e"
    using that by (simp add: parseWhatsAppGroupLink_def Let_def)
  have 6: "parseWhatsAppGroupLink new_URL input = Inr None"
    if "new_URL (whatsapp_raw (trim input)) = Inr u" "hostname u \<noteq> ''chat.whatsapp.com''"
    using that by (simp add: parseWhatsAppGroupLink_def whatsapp_of_URL_def Let_def)
  from 1 2 3 4 5 6 show ?thesis by blast
qed

lemmas whatwg_eval = URL_new_def whatwg_parse_def url_preprocess_def split_scheme_def
  is_special_scheme_def parse_after_slashes_def host_parse_def needs_idna_def
  ends_in_a_number_def is_number_label_def ascii_lower_def parse_path_def
  serialize_path_def serialize_query_fragment_def percent_encode_def utf8_percent_encode_def
  percent_byte_def hex_digit_def is_single_dot_def is_double_dot_def char_class_defs Let_def

lemma URL_new_examples:
  "URL_new ''not a link'' = Inl TypeError"
  "URL_new ''https://example.com/abc-defg-hij'' =
     Inr \<lparr> hostname = ''example.com'', pathname = ''/abc-defg-hij'',
           href = ''https://example.com/abc-defg-hij'' \<rparr>"
  by (simp_all add: whatwg_eval)

section \<open>Lookup links\<close>

lemmas raw_eval = trim_eval meet_raw_def whatsapp_raw_def startsWith_def match_meeting_code_def
  is_ascii_letter_def

theorem resolvers_never_throw_witness:
  "parseGoogleMeet URL_new ''not a link'' = Inr None
   \<and> parseGoogleMeet URL_new ''https://example.com/abc-defg-hij'' = Inr None
   \<and> parseWhatsAppGroupLink URL_new ''not a link'' = Inr None
   \<and> parseWhatsAppGroupLink URL_new ''https://example.com/abc-defg-hij'' = Inr None"
  using resolvers_never_throw[of URL_new "''not a link''" TypeError
      "\<lparr> hostname = ''example.com'', pathname = ''/abc-defg-hij'',
         href = ''https://example.com/abc-defg-hij'' \<rparr>"]
    resolvers_never_throw[of URL_new "''https://example.com/abc-defg-hij''" TypeError
      "\<lparr> hostname = ''example.com'', pathname = ''/abc-defg-hij'',
         href = ''https://example.com/abc-defg-hij'' \<rparr>"]
  by (simp add: raw_eval URL_new_examples)

lemma match_lookup_literal:
  assumes "tok \<noteq> []" "CHR ''/'' \<notin> set tok" "length pre = 8" "map ascii_lower pre = ''/lookup/''"
  shows "match_lookup (pre @ tok) = Some tok"
  using assms by (simp add: match_lookup_def)

lemma lower_char_ascii:
  assumes "lower_char c = d" "code_unit d < 128"
  shows "ascii_lower c = d"
proof -
  have "code_unit (ascii_lower c) = code_unit d"
    using assms unfolding assms(1)[symmetric] code_unit_ascii_lower code_unit_lower_char
    by (auto split: if_splits)
  then show ?thesis by (simp add: code_unit_inject)
qed

lemma toLowerCase_ascii:
  assumes "toLowerCase s = t" "\<forall>d \<in> set t. code_unit d < 128"
  shows "map ascii_lower s = t"
  using assms
proof (induction s arbitrary: t)
  case Nil
  then show ?case by (simp add: toLowerCase_def)
next
  case (Cons c cs)
  then obtain d ds where t: "t = d # ds" "lower_char c = d" "toLowerCase cs = ds"
    by (auto simp: toLowerCase_def)
  with Cons.prems(2) have "code_unit d < 128" "\<forall>d \<in> set ds. code_unit d < 128" by auto
  with t Cons.IH lower_char_ascii show ?case by simp
qed

lemma meet_of_URL_lookup:
  assumes "hostname u = ''meet.google.com''"
    and "strip_trailing_slashes (pathname u) = pre @ tok"
    and "toLowerCase pre = ''/lookup/''" "tok \<noteq> []" "CHR ''/'' \<notin> set tok"
  shows "meet_of_URL u = Some (Lookup (''https://meet.google.com/lookup/'' @ tok) tok)"
proof -
  have "length (toLowerCase pre) = length ''/lookup/''" using assms(3) by simp
  then have len: "length pre = 8" by (simp add: toLowerCase_def)
  have "map ascii_lower pre = ''/lookup/''"
    by (rule toLowerCase_ascii[OF assms(3)]) (simp add: code_unit_def)
  from match_lookup_literal[OF assms(4,5) len this] assms(1,2) show ?thesis
    by (simp add: meet_of_URL_def meet_primary_def)
qed

text \<open>
  Claim C6. Let the input reach the URL constructor and come back as a URL on the host
  \<open>meet.google.com\<close> whose path, once the slashes at its end are removed, is
  \<open>/lookup/\<close> followed by a token of one or more characters, none of them a slash.
  Then \<open>parseGoogleMeet\<close> returns the \<open>Lookup\<close> variant with that token as it stands
  and the \<open>url\<close> \<open>https://meet.google.com/lookup/\<close> followed by the token.
\<close>

theorem lookup_handling:
  assumes "follows_whatwg new_URL"
    and "new_URL (meet_raw (trim input)) = Inr u"
    and "hostname u = ''meet.google.com''"
    and "strip_trailing_slashes (pathname u) = ''/lookup/'' @ tok"
    and "tok \<noteq> []" "CHR ''/'' \<notin> set tok"
  shows "parseGoogleMeet new_URL input =
           Inr (Some (Lookup (''https://meet.google.com/lookup/'' @ tok) tok))"
proof -
  have "toLowerCase ''/lookup/'' = ''/lookup/''"
    by (simp add: toLowerCase_def lower_char_def code_unit_def)
  from meet_of_URL_lookup[OF assms(3,4) this assms(5,6)]
    parseGoogleMeet_of_URL[OF assms(1,2)]
  show ?thesis by simp
qed

lemma URL_new_lookup_example:
  "URL_new ''https://meet.google.com/lookup/xyz123'' =
     Inr \<lparr> hostname = ''meet.google.com'', pathname = ''/lookup/xyz123'',
           href = ''https://meet.google.com/lookup/xyz123'' \<rparr>"
  "URL_new ''https://meet.google.com/lookup/xyz123//?authuser=0'' =
     Inr \<lparr> hostname = ''meet.google.com'', pathname = ''/lookup/xyz123//'',
           href = ''https://meet.google.com/lookup/xyz123//?authuser=0'' \<rparr>"
  by (simp_all add: whatwg_eval)

theorem lookup_handling_witness:
  "parseGoogleMeet URL_new ''https://meet.google.com/lookup/xyz123'' =
     Inr (Some (Lookup ''https://meet.google.com/lookup/xyz123'' ''xyz123''))
   \<and> parseGoogleMeet URL_new ''meet.google.com/lookup/xyz123//?authuser=0'' =
     Inr (Some (Lookup ''https://meet.google.com/lookup/xyz123'' ''xyz123''))"
  using lookup_handling[OF URL_new_follows_whatwg, of "''https://meet.google.com/lookup/xyz123''"
      "\<lparr> hostname = ''meet.google.com'', pathname = ''/lookup/xyz123'',
         href = ''https://meet.google.com/lookup/xyz123'' \<rparr>" "''xyz123''"]
    lookup_handling[OF URL_new_follows_whatwg, of "''meet.google.com/lookup/xyz123//?authuser=0''"
      "\<lparr> hostname = ''meet.google.com'', pathname = ''/lookup/xyz123//'',
         href = ''https://meet.google.com/lookup/xyz123//?authuser=0'' \<rparr>" "''xyz123''"]
  by (simp add: raw_eval URL_new_lookup_example strip_trailing_slashes_def)

section \<open>Letter case of the path prefixes\<close>

lemma meet_of_URL_redirect:
  assumes "hostname u = ''g.co''" "pathname u = pre @ rest" "toLowerCase pre = ''/meet/''"
  shows "meet_of_URL u = meet_redirect u"
proof -
  have "toLowerCase (pathname u) = ''/meet/'' @ toLowerCase rest"
    using assms(2,3) by (simp add: toLowerCase_def)
  then show ?thesis using assms(1) by (simp add: meet_of_URL_def startsWith_def)
qed

lemma token_path_text: "list_all is_token_char t \<Longrightarrow> path_text (p @ t) \<longleftrightarrow> path_text p"
  by (auto simp: path_text_def list_all_iff)

lemma strip_trailing_slashes_id:
  "s = [] \<or> last s \<noteq> CHR ''/'' \<Longrightarrow> strip_trailing_slashes s = s"
  unfolding strip_trailing_slashes_def by (rule strip_end_id) simp

lemma token_not_slash: "list_all is_token_char t \<Longrightarrow> CHR ''/'' \<notin> set t"
  using token_char_plain(8) by (auto simp: list_all_iff)

lemma strip_trailing_slashes_token:
  assumes "list_all is_token_char t" "t \<noteq> []"
  shows "strip_trailing_slashes (p @ t) = p @ t"
proof -
  have "last (p @ t) \<in> set t" using assms(2) by simp
  then have "last (p @ t) \<noteq> CHR ''/''" using token_not_slash[OF assms(1)] by metis
  then show ?thesis by (intro strip_trailing_slashes_id) simp
qed

text \<open>
  Claim C10. The literal path prefixes are matched in either letter case. A URL on
  \<open>meet.google.com\<close> whose path without the slashes at its end is \<open>/lookup/\<close> in any
  letter case followed by a token gives the \<open>Lookup\<close> variant, with the token as it
  stands; a URL on \<open>g.co\<close> whose path starts with \<open>/meet/\<close> in any letter case is
  handled by the redirect branch. In particular \<open>https://meet.google.com/LOOKUP/<token>\<close>
  gives \<open>Lookup\<close> with the token unchanged, and \<open>https://g.co/MEET/<rest>\<close> gives what the
  redirect branch gives: \<open>Code\<close> when the rest is a meeting code, \<open>Path\<close> otherwise.
\<close>

theorem path_prefixes_ignore_case:
  assumes "follows_whatwg new_URL"
  shows "(new_URL (meet_raw (trim input)) = Inr u \<and> hostname u = ''meet.google.com''
            \<and> strip_trailing_slashes (pathname u) = pre @ tok
            \<and> toLowerCase pre = ''/lookup/'' \<and> tok \<noteq> [] \<and> CHR ''/'' \<notin> set tok
          \<longrightarrow> parseGoogleMeet new_URL input =
                Inr (Some (Lookup (''https://meet.google.com/lookup/'' @ tok) tok)))
       \<and> (new_URL (meet_raw (trim input)) = Inr u \<and> hostname u = ''g.co''
            \<and> pathname u = pre @ rest \<and> toLowerCase pre = ''/meet/''
          \<longrightarrow> parseGoogleMeet new_URL input = Inr (meet_redirect u))
       \<and> (list_all is_token_char tok \<and> tok \<noteq> []
          \<longrightarrow> parseGoogleMeet new_URL (''https://meet.google.com/LOOKUP/'' @ tok) =
                Inr (Some (Lookup (''https://meet.google.com/lookup/'' @ tok) tok)))
       \<and> (list_all is_token_char tok \<and> tok \<noteq> []
          \<longrightarrow> parseGoogleMeet new_URL (''https://g.co/MEET/'' @ tok) =
                Inr (Some (if match_meeting_code tok \<noteq> None
                           then Code (''https://meet.google.com/'' @ toLowerCase tok)
                                     (toLowerCase tok)
                           else Url (''https://g.co/MEET/'' @ tok) (''/meet/'' @ tok))))"
proof -
  have 1: "parseGoogleMeet new_URL input =
             Inr (Some (Lookup (''https://meet.google.com/lookup/'' @ tok) tok))"
    if "new_URL (meet_raw (trim input)) = Inr u" "hostname u = ''meet.google.com''"
      "strip_trailing_slashes (pathname u) = pre @ tok"
      "toLowerCase pre = ''/lookup/''" "tok \<noteq> []" "CHR ''/'' \<notin> set tok"
    using parseGoogleMeet_of_URL[OF assms that(1)] meet_of_URL_lookup[OF that(2-6)] by simp
  have 2: "parseGoogleMeet new_URL input = Inr (meet_redirect u)"
    if "new_URL (meet_raw (trim input)) = Inr u" "hostname u = ''g.co''"
      "pathname u = pre @ rest" "toLowerCase pre = ''/meet/''"
    using parseGoogleMeet_of_URL[OF assms that(1)] meet_of_URL_redirect[OF that(2-4)] by simp
  have 3: "parseGoogleMeet new_URL (''https://meet.google.com/LOOKUP/'' @ tok) =
             Inr (Some (Lookup (''https://meet.google.com/lookup/'' @ tok) tok))"
    if tok: "list_all is_token_char tok" "tok \<noteq> []"
  proof -
    let ?s = "''https://meet.google.com/LOOKUP/'' @ tok"
    let ?u = "\<lparr> hostname = ''meet.google.com'', pathname = ''/LOOKUP/'' @ tok, href = ?s \<rparr>"
    have pt: "path_text (''LOOKUP/'' @ tok)"
      unfolding token_path_text[OF tok(1)] by (simp add: path_text_def is_token_char_def code_unit_def)
    have u: "new_URL ?s = Inr ?u"
      using follows_whatwg_simple[OF assms _ pt, of "''meet.google.com''"] by simp
    have t: "trim ?s = ?s"
      unfolding trim_def
      using strip_end_id[of ?s is_js_whitespace] token_char_plain(1) tok
      by (cases tok rule: rev_cases) (auto simp: is_js_whitespace_def code_unit_def list_all_iff)
    have r: "meet_raw ?s = ?s" by (simp add: meet_raw_def startsWith_def)
    have p: "strip_trailing_slashes (pathname ?u) = ''/LOOKUP/'' @ tok"
      using strip_trailing_slashes_token[OF tok, of "''/LOOKUP/''"] by simp
    have l: "toLowerCase ''/LOOKUP/'' = ''/lookup/''"
      by (simp add: toLowerCase_def lower_char_def code_unit_def char_of_nat_bits)
    have "parseGoogleMeet new_URL ?s = Inr (meet_of_URL ?u)"
      by (rule parseGoogleMeet_of_URL[OF assms]) (simp only: t r u)
    then show ?thesis
      using meet_of_URL_lookup[OF _ p l tok(2) token_not_slash[OF tok(1)]] by simp
  qed
  have 4: "parseGoogleMeet new_URL (''https://g.co/MEET/'' @ tok) =
             Inr (Some (if match_meeting_code tok \<noteq> None
                        then Code (''https://meet.google.com/'' @ toLowerCase tok)
                                  (toLowerCase tok)
                        else Url (''https://g.co/MEET/'' @ tok) (''/meet/'' @ tok)))"
    if tok: "list_all is_token_char tok" "tok \<noteq> []"
  proof -
    let ?s = "''https://g.co/MEET/'' @ tok"
    let ?u = "\<lparr> hostname = ''g.co'', pathname = ''/MEET/'' @ tok, href = ?s \<rparr>"
    have pt: "path_text (''MEET/'' @ tok)"
      unfolding token_path_text[OF tok(1)] by (simp add: path_text_def is_token_char_def code_unit_def)
    have u: "new_URL ?s = Inr ?u"
      using follows_whatwg_simple[OF assms _ pt, of "''g.co''"] by simp
    have t: "trim ?s = ?s"
      unfolding trim_def
      using strip_end_id[of ?s is_js_whitespace] token_char_plain(1) tok
      by (cases tok rule: rev_cases) (auto simp: is_js_whitespace_def code_unit_def list_all_iff)
    have r: "meet_raw ?s = ?s" by (simp add: meet_raw_def startsWith_def)
    have l: "toLowerCase ''/MEET/'' = ''/meet/''"
      by (simp add: toLowerCase_def lower_char_def code_unit_def char_of_nat_bits)
    have "parseGoogleMeet new_URL ?s = Inr (meet_of_URL ?u)"
      by (rule parseGoogleMeet_of_URL[OF assms]) (simp only: t r u)
    also have "meet_of_URL ?u = meet_redirect ?u"
      by (rule meet_of_URL_redirect[OF _ _ l]) simp_all
    also have "meet_redirect ?u = Some (if match_meeting_code tok \<noteq> None
                        then Code (''https://meet.google.com/'' @ toLowerCase tok)
                                  (toLowerCase tok)
                        else Url (''https://g.co/MEET/'' @ tok) (''/meet/'' @ tok))"
      using strip_trailing_slashes_token[OF tok, of "[]"] tok(2) match_meeting_code_Some[of tok]
      by (auto simp: meet_redirect_def Let_def split: option.splits)
    finally show ?thesis .
  qed
  from 1 2 3 4 show ?thesis by blast
qed

theorem path_prefixes_ignore_case_witness:
  "parseGoogleMeet URL_new ''https://meet.google.com/LOOKUP/AbC'' =
     Inr (Some (Lookup ''https://meet.google.com/lookup/AbC'' ''AbC''))
   \<and> parseGoogleMeet URL_new ''https://g.co/MEET/abc-DEFG-hij'' =
     Inr (Some (Code ''https://meet.google.com/abc-defg-hij'' ''abc-defg-hij''))
   \<and> parseGoogleMeet URL_new ''https://g.co/MEET/room1'' =
     Inr (Some (Url ''https://g.co/MEET/room1'' ''/meet/room1''))"
  using path_prefixes_ignore_case[OF URL_new_follows_whatwg,
      of "''https://meet.google.com/LOOKUP/AbC''"
         "\<lparr> hostname = ''meet.google.com'', pathname = ''/LOOKUP/AbC'',
            href = ''https://meet.google.com/LOOKUP/AbC'' \<rparr>"
         "''/LOOKUP/''" "''AbC''" "[]"]
    path_prefixes_ignore_case[OF URL_new_follows_whatwg,
      of "''https://g.co/MEET/abc-DEFG-hij''"
         "\<lparr> hostname = ''g.co'', pathname = ''/MEET/abc-DEFG-hij'',
            href = ''https://g.co/MEET/abc-DEFG-hij'' \<rparr>"
         "''/MEET/''" "''abc-DEFG-hij''" "''abc-DEFG-hij''"]
    path_prefixes_ignore_case[OF URL_new_follows_whatwg,
      of "''https://g.co/MEET/room1''"
         "\<lparr> hostname = ''g.co'', pathname = ''/MEET/room1'',
            href = ''https://g.co/MEET/room1'' \<rparr>"
         "''/MEET/''" "''room1''" "''room1''"]
  by (simp add: is_token_char_def code_unit_def match_meeting_code_def is_ascii_letter_def
      toLowerCase_def lower_char_def char_of_nat_bits)

lemma split_on_hd: "hd (split_on sep s) = takeWhile (\<lambda>c. \<not> sep c) s"
proof (induction s)
  case Nil
  then show ?case by simp
next
  case (Cons c cs)
  obtain p ps where ps: "split_on sep cs = p # ps"
    using split_on_not_Nil by (cases "split_on sep cs") auto
  with Cons show ?case by (cases "sep c") auto
qed

lemma first_segment_slash: "first_segment (CHR ''/'' # s) = first_segment s"
  by (simp add: first_segment_def)

lemma first_segment_slashes: "first_segment (replicate k CHR ''/'' @ s) = first_segment s"
  by (induction k) (simp_all add: first_segment_slash)

lemma first_segment_start:
  assumes "c \<noteq> CHR ''/''"
  shows "first_segment (c # cs) = Some (takeWhile (\<lambda>d. d \<noteq> CHR ''/'') (c # cs))"
proof -
  obtain p ps where ps: "split_on (\<lambda>c. c = CHR ''/'') cs = p # ps"
    using split_on_not_Nil by (cases "split_on (\<lambda>c. c = CHR ''/'') cs") auto
  have "p = takeWhile (\<lambda>d. d \<noteq> CHR ''/'') cs"
    using split_on_hd[of "\<lambda>c. c = CHR ''/''" cs] ps by simp
  with assms ps show ?thesis by (simp add: first_segment_def)
qed

lemma first_segment_Nil: "first_segment [] = None"
  by (simp add: first_segment_def)

text \<open>
  What \<open>split("/").filter(Boolean)[0]\<close> finds: the path is some slashes, then the
  segment, which is not empty and holds no slash, then nothing or a slash and more.
\<close>

lemma first_segment_iff:
  "first_segment p = Some t \<longleftrightarrow>
     (\<exists>k rest. p = replicate k CHR ''/'' @ t @ rest \<and> t \<noteq> [] \<and> CHR ''/'' \<notin> set t
        \<and> (rest = [] \<or> hd rest = CHR ''/''))"
proof
  assume fs: "first_segment p = Some t"
  let ?k = "length (takeWhile (\<lambda>c. c = CHR ''/'') p)"
  let ?q = "dropWhile (\<lambda>c. c = CHR ''/'') p"
  have tw: "takeWhile (\<lambda>c. c = CHR ''/'') p = replicate ?k CHR ''/''"
    by (rule replicate_length_same[symmetric]) (meson set_takeWhileD)
  have p: "p = replicate ?k CHR ''/'' @ ?q"
    using takeWhile_dropWhile_id[of "\<lambda>c. c = CHR ''/''" p] tw by simp
  then have fq: "first_segment ?q = Some t" using fs first_segment_slashes by metis
  then obtain c cs where q: "?q = c # cs" by (cases ?q) (auto simp: first_segment_Nil)
  then have c: "c \<noteq> CHR ''/''" using hd_dropWhile[of "\<lambda>c. c = CHR ''/''" p] by auto
  have t: "t = takeWhile (\<lambda>d. d \<noteq> CHR ''/'') ?q"
    using fq first_segment_start[OF c, of cs] q by simp
  let ?rest = "dropWhile (\<lambda>d. d \<noteq> CHR ''/'') ?q"
  have "?q = t @ ?rest" using t by simp
  moreover have "t \<noteq> []" using t q c by simp
  moreover have "CHR ''/'' \<notin> set t" using t by (metis (mono_tags, lifting) set_takeWhileD)
  moreover have "?rest = [] \<or> hd ?rest = CHR ''/''"
    using hd_dropWhile[of "\<lambda>d. d \<noteq> CHR ''/''" ?q] by auto
  ultimately show "\<exists>k rest. p = replicate k CHR ''/'' @ t @ rest \<and> t \<noteq> [] \<and> CHR ''/'' \<notin> set t
        \<and> (rest = [] \<or> hd rest = CHR ''/'')"
    using p by metis
next
  assume "\<exists>k rest. p = replicate k CHR ''/'' @ t @ rest \<and> t \<noteq> [] \<and> CHR ''/'' \<notin> set t
        \<and> (rest = [] \<or> hd rest = CHR ''/'')"
  then obtain k rest where p: "p = replicate k CHR ''/'' @ t @ rest" and t: "t \<noteq> []"
    "CHR ''/'' \<notin> set t" and rest: "rest = [] \<or> hd rest = CHR ''/''" by blast
  obtain c cs where tc: "t = c # cs" using t by (cases t) auto
  then have c: "c \<noteq> CHR ''/''" using t by auto
  have "first_segment p = first_segment (t @ rest)" using p first_segment_slashes by simp
  also have "\<dots> = Some (takeWhile (\<lambda>d. d \<noteq> CHR ''/'') (t @ rest))"
    using first_segment_start[OF c, of "cs @ rest"] tc by simp
  also have "takeWhile (\<lambda>d. d \<noteq> CHR ''/'') (t @ rest) = t"
  proof -
    have all: "\<forall>x \<in> set t. x \<noteq> CHR ''/''" using t(2) by blast
    show ?thesis
    proof (cases rest)
      case Nil
      then show ?thesis using all by simp
    next
      case (Cons r rs)
      with rest have "r = CHR ''/''" by simp
      with Cons all show ?thesis by simp
    qed
  qed
  finally show "first_segment p = Some t" .
qed

section \<open>The resolvers on canonical URLs\<close>

lemma trim_id:
  assumes "s = [] \<or> (\<not> is_js_whitespace (hd s) \<and> \<not> is_js_whitespace (last s))"
  shows "trim s = s"
proof -
  have 1: "dropWhile is_js_whitespace s = s" using assms by (intro strip_start_id) blast
  have 2: "rev (dropWhile is_js_whitespace (rev s)) = s"
    using assms by (intro strip_end_id) blast
  show ?thesis unfolding trim_def 1 2 ..
qed

lemma path_text_not_whitespace:
  assumes "path_text rest" "c \<in> set rest"
  shows "\<not> is_js_whitespace c"
proof -
  have "is_token_char c \<or> c = CHR ''/''" using assms by (simp add: path_text_def)
  then show ?thesis using token_char_plain(1)[of c] slash_plain(4) by auto
qed

lemma trim_canonical:
  assumes "path_text rest" "\<not> is_js_whitespace (hd pre)" "pre \<noteq> []"
    "\<not> is_js_whitespace (last pre)"
  shows "trim (pre @ rest) = pre @ rest"
proof (rule trim_id)
  have "last (pre @ rest) = (if rest = [] then last pre else last rest)" by simp
  moreover have "rest \<noteq> [] \<Longrightarrow> \<not> is_js_whitespace (last rest)"
    using path_text_not_whitespace[OF assms(1)] last_in_set by blast
  ultimately have "\<not> is_js_whitespace (last (pre @ rest))" using assms(4) by auto
  moreover have "hd (pre @ rest) = hd pre" using assms(3) by simp
  ultimately show "pre @ rest = [] \<or>
    (\<not> is_js_whitespace (hd (pre @ rest)) \<and> \<not> is_js_whitespace (last (pre @ rest)))"
    using assms(2) by simp
qed

lemma known_host_not_whitespace:
  assumes "host \<in> set [''g.co'', ''meet.google.com'', ''chat.whatsapp.com'']"
  shows "host \<noteq> []" "\<not> is_js_whitespace (hd host)"
  using assms by (auto simp: is_js_whitespace_def code_unit_def)

text \<open>The resolvers on a canonical URL, with or without its scheme.\<close>

lemma trim_canonical_url:
  assumes "host \<in> set [''g.co'', ''meet.google.com'', ''chat.whatsapp.com'']" "path_text rest"
  shows "trim (''https://'' @ host @ CHR ''/'' # rest) = ''https://'' @ host @ CHR ''/'' # rest"
    "trim (host @ CHR ''/'' # rest) = host @ CHR ''/'' # rest"
proof -
  show "trim (''https://'' @ host @ CHR ''/'' # rest) = ''https://'' @ host @ CHR ''/'' # rest"
    using trim_canonical[OF assms(2), of "''https://'' @ host @ ''/''"]
    by (simp add: is_js_whitespace_def code_unit_def)
  show "trim (host @ CHR ''/'' # rest) = host @ CHR ''/'' # rest"
    using trim_canonical[OF assms(2), of "host @ ''/''"] known_host_not_whitespace[OF assms(1)]
    by (simp add: is_js_whitespace_def code_unit_def)
qed

lemma parseGoogleMeet_canonical_url:
  assumes "follows_whatwg new_URL" "host \<in> set [''g.co'', ''meet.google.com'']" "path_text rest"
  shows "parseGoogleMeet new_URL (''https://'' @ host @ CHR ''/'' # rest) =
     Inr (meet_of_URL \<lparr> hostname = host, pathname = CHR ''/'' # rest,
                        href = ''https://'' @ host @ CHR ''/'' # rest \<rparr>)"
proof -
  let ?s = "''https://'' @ host @ CHR ''/'' # rest"
  have h: "host \<in> set [''g.co'', ''meet.google.com'', ''chat.whatsapp.com'']"
    using assms(2) by auto
  have r: "meet_raw ?s = ?s" by (simp add: meet_raw_def startsWith_def)
  show ?thesis
    by (rule parseGoogleMeet_of_URL[OF assms(1)])
       (simp only: trim_canonical_url(1)[OF h assms(3)] r follows_whatwg_simple[OF assms(1) h assms(3)])
qed

lemma parseWhatsAppGroupLink_canonical_url:
  assumes "follows_whatwg new_URL" "path_text rest"
  shows "parseWhatsAppGroupLink new_URL (''https://chat.whatsapp.com/'' @ rest) =
     Inr (whatsapp_of_URL \<lparr> hostname = ''chat.whatsapp.com'', pathname = CHR ''/'' # rest,
                            href = ''https://chat.whatsapp.com/'' @ rest \<rparr>)"
proof -
  let ?s = "''https://'' @ ''chat.whatsapp.com'' @ CHR ''/'' # rest"
  have h: "''chat.whatsapp.com'' \<in> set [''g.co'', ''meet.google.com'', ''chat.whatsapp.com'']"
    by simp
  have r: "whatsapp_raw ?s = ?s" by (simp add: whatsapp_raw_def startsWith_def)
  have "parseWhatsAppGroupLink new_URL ?s =
     Inr (whatsapp_of_URL \<lparr> hostname = ''chat.whatsapp.com'', pathname = CHR ''/'' # rest,
                            href = ?s \<rparr>)"
    by (rule parseWhatsAppGroupLink_of_URL[OF assms(1)])
       (simp only: trim_canonical_url(1)[OF h assms(2)] r follows_whatwg_simple[OF assms(1) h assms(2)])
  then show ?thesis by simp
qed

lemma schemeless_same:
  assumes "path_text rest"
  shows "parseGoogleMeet new_URL (''g.co/meet/'' @ rest) =
           parseGoogleMeet new_URL (''https://g.co/meet/'' @ rest)"
    "parseGoogleMeet new_URL (''meet.google.com/'' @ rest) =
           parseGoogleMeet new_URL (''https://meet.google.com/'' @ rest)"
    "parseWhatsAppGroupLink new_URL (''chat.whatsapp.com/'' @ rest) =
           parseWhatsAppGroupLink new_URL (''https://chat.whatsapp.com/'' @ rest)"
proof -
  have pt: "path_text (''meet/'' @ rest)"
    using assms by (auto simp: path_text_def is_token_char_def code_unit_def)
  have g: "''g.co'' \<in> set [''g.co'', ''meet.google.com'', ''chat.whatsapp.com'']" by simp
  have m: "''meet.google.com'' \<in> set [''g.co'', ''meet.google.com'', ''chat.whatsapp.com'']" by simp
  have w: "''chat.whatsapp.com'' \<in> set [''g.co'', ''meet.google.com'', ''chat.whatsapp.com'']" by simp
  have nc: "match_meeting_code (''g.co/meet/'' @ rest) = None"
    "match_meeting_code (''https://g.co/meet/'' @ rest) = None"
    "match_meeting_code (''meet.google.com/'' @ rest) = None"
    "match_meeting_code (''https://meet.google.com/'' @ rest) = None"
    by (simp_all add: match_meeting_code_def is_ascii_letter_def code_unit_def)
  show "parseGoogleMeet new_URL (''g.co/meet/'' @ rest) =
           parseGoogleMeet new_URL (''https://g.co/meet/'' @ rest)"
    using trim_canonical_url[OF g pt] nc
    by (simp add: parseGoogleMeet_def meet_raw_def startsWith_def)
  show "parseGoogleMeet new_URL (''meet.google.com/'' @ rest) =
           parseGoogleMeet new_URL (''https://meet.google.com/'' @ rest)"
    using trim_canonical_url[OF m assms] nc
    by (simp add: parseGoogleMeet_def meet_raw_def startsWith_def)
  show "parseWhatsAppGroupLink new_URL (''chat.whatsapp.com/'' @ rest) =
           parseWhatsAppGroupLink new_URL (''https://chat.whatsapp.com/'' @ rest)"
    using trim_canonical_url[OF w assms]
    by (simp add: parseWhatsAppGroupLink_def whatsapp_raw_def startsWith_def)
qed

section \<open>The group invite resolver: contract\<close>

lemma token_list_path_text: "list_all is_token_char t \<Longrightarrow> path_text t"
  by (auto simp: path_text_def list_all_iff)

lemma whatsapp_of_URL_token:
  assumes "list_all is_token_char tok"
  shows "whatsapp_of_URL \<lparr> hostname = ''chat.whatsapp.com'', pathname = CHR ''/'' # tok, href = h \<rparr>
           = (if 10 \<le> length tok then Some (''https://chat.whatsapp.com/'' @ tok) else None)"
proof (cases tok)
  case Nil
  then show ?thesis
    by (simp add: whatsapp_of_URL_def first_segment_slash first_segment_Nil)
next
  case (Cons c cs)
  then have c: "c \<noteq> CHR ''/''" using token_not_slash[OF assms] by auto
  have "takeWhile (\<lambda>d. d \<noteq> CHR ''/'') tok = tok"
    using token_not_slash[OF assms] by simp blast
  then have "first_segment (CHR ''/'' # tok) = Some tok"
    using first_segment_start[OF c, of cs] Cons by (simp add: first_segment_slash)
  then show ?thesis using assms by (simp add: whatsapp_of_URL_def test_invite_token_def)
qed

text \<open>
  Claim C3. \<open>parseWhatsAppGroupLink\<close> succeeds exactly when the trimmed input, with
  \<open>https://\<close> put in front where the source does so, is read by the URL constructor
  as a URL whose host is \<open>chat.whatsapp.com\<close> and whose path is some slashes, then a
  first segment of ten or more characters from \<open>[A-Za-z0-9_-]\<close>, then nothing or a slash
  and the rest; it then returns \<open>https://chat.whatsapp.com/\<close> followed by that segment,
  and the rest is dropped. On \<open>https://chat.whatsapp.com/<token>\<close>, with or without
  the scheme, a token of token characters is accepted when it has ten characters or
  more and rejected when it has fewer, nine for one.
\<close>

theorem invite_link_contract:
  assumes "follows_whatwg new_URL"
  shows "(parseWhatsAppGroupLink new_URL input = Inr (Some r) \<longleftrightarrow>
            (\<exists>u k tok rest.
                new_URL (whatsapp_raw (trim input)) = Inr u
              \<and> hostname u = ''chat.whatsapp.com''
              \<and> pathname u = replicate k CHR ''/'' @ tok @ rest
              \<and> (rest = [] \<or> hd rest = CHR ''/'')
              \<and> 10 \<le> length tok \<and> list_all is_token_char tok
              \<and> r = ''https://chat.whatsapp.com/'' @ tok))
       \<and> (list_all is_token_char t \<longrightarrow>
            parseWhatsAppGroupLink new_URL (''https://chat.whatsapp.com/'' @ t) =
              Inr (if 10 \<le> length t then Some (''https://chat.whatsapp.com/'' @ t) else None)
          \<and> parseWhatsAppGroupLink new_URL (''chat.whatsapp.com/'' @ t) =
              Inr (if 10 \<le> length t then Some (''https://chat.whatsapp.com/'' @ t) else None))"
proof -
  have fwd: "\<exists>u k tok rest.
                new_URL (whatsapp_raw (trim input)) = Inr u
              \<and> hostname u = ''chat.whatsapp.com''
              \<and> pathname u = replicate k CHR ''/'' @ tok @ rest
              \<and> (rest = [] \<or> hd rest = CHR ''/'')
              \<and> 10 \<le> length tok \<and> list_all is_token_char tok
              \<and> r = ''https://chat.whatsapp.com/'' @ tok"
    if ok: "parseWhatsAppGroupLink new_URL input = Inr (Some r)"
  proof -
    from ok obtain u where u: "new_URL (whatsapp_raw (trim input)) = Inr u"
      and r: "whatsapp_of_URL u = Some r"
      by (auto simp: parseWhatsAppGroupLink_def Let_def split: if_splits sum.splits)
    from r obtain tok where h: "hostname u = ''chat.whatsapp.com''"
      and fs: "first_segment (pathname u) = Some tok"
      and tk: "test_invite_token tok" and r': "r = ''https://chat.whatsapp.com/'' @ tok"
      by (auto simp: whatsapp_of_URL_def split: if_splits option.splits)
    from fs obtain k rest where "pathname u = replicate k CHR ''/'' @ tok @ rest"
      "rest = [] \<or> hd rest = CHR ''/''"
      unfolding first_segment_iff by blast
    with u h tk r' show ?thesis unfolding test_invite_token_def by blast
  qed
  have bwd: "parseWhatsAppGroupLink new_URL input = Inr (Some r)"
    if ex: "\<exists>u k tok rest.
                new_URL (whatsapp_raw (trim input)) = Inr u
              \<and> hostname u = ''chat.whatsapp.com''
              \<and> pathname u = replicate k CHR ''/'' @ tok @ rest
              \<and> (rest = [] \<or> hd rest = CHR ''/'')
              \<and> 10 \<le> length tok \<and> list_all is_token_char tok
              \<and> r = ''https://chat.whatsapp.com/'' @ tok"
  proof -
    from ex obtain u k tok rest where u: "new_URL (whatsapp_raw (trim input)) = Inr u"
      and h: "hostname u = ''chat.whatsapp.com''"
      and p: "pathname u = replicate k CHR ''/'' @ tok @ rest" "rest = [] \<or> hd rest = CHR ''/''"
      and tk: "10 \<le> length tok" "list_all is_token_char tok"
      and r: "r = ''https://chat.whatsapp.com/'' @ tok" by blast
    have "tok \<noteq> []" using tk(1) by auto
    then have "first_segment (pathname u) = Some tok"
      unfolding first_segment_iff using p token_not_slash[OF tk(2)] by blast
    then have "whatsapp_of_URL u = Some r"
      using h tk r by (simp add: whatsapp_of_URL_def test_invite_token_def)
    then show ?thesis using parseWhatsAppGroupLink_of_URL[OF assms u] by simp
  qed
  have tok: "parseWhatsAppGroupLink new_URL (''https://chat.whatsapp.com/'' @ t) =
              Inr (if 10 \<le> length t then Some (''https://chat.whatsapp.com/'' @ t) else None)
          \<and> parseWhatsAppGroupLink new_URL (''chat.whatsapp.com/'' @ t) =
              Inr (if 10 \<le> length t then Some (''https://chat.whatsapp.com/'' @ t) else None)"
    if t: "list_all is_token_char t"
    using parseWhatsAppGroupLink_canonical_url[OF assms token_list_path_text[OF t]]
      whatsapp_of_URL_token[OF t] schemeless_same(3)[OF token_list_path_text[OF t], of new_URL]
    by simp
  from fwd bwd tok show ?thesis by blast
qed

lemma URL_new_whatsapp_example:
  "URL_new ''https://chat.whatsapp.com//AbCdEfGhIj1234/more?x=1'' =
     Inr \<lparr> hostname = ''chat.whatsapp.com'', pathname = ''//AbCdEfGhIj1234/more'',
           href = ''https://chat.whatsapp.com//AbCdEfGhIj1234/more?x=1'' \<rparr>"
  by (simp add: whatwg_eval)

theorem invite_link_contract_witness:
  "parseWhatsAppGroupLink URL_new '' chat.whatsapp.com//AbCdEfGhIj1234/more?x=1 '' =
      Inr (Some ''https://chat.whatsapp.com/AbCdEfGhIj1234'')
   \<and> parseWhatsAppGroupLink URL_new ''https://chat.whatsapp.com/AbCdEfGhIj'' =
      Inr (Some ''https://chat.whatsapp.com/AbCdEfGhIj'')
   \<and> parseWhatsAppGroupLink URL_new ''https://chat.whatsapp.com/AbCdEfGhI'' = Inr None"
proof -
  let ?u = "\<lparr> hostname = ''chat.whatsapp.com'', pathname = ''//AbCdEfGhIj1234/more'',
           href = ''https://chat.whatsapp.com//AbCdEfGhIj1234/more?x=1'' \<rparr>"
  have raw: "whatsapp_raw (trim '' chat.whatsapp.com//AbCdEfGhIj1234/more?x=1 '')
               = ''https://chat.whatsapp.com//AbCdEfGhIj1234/more?x=1''"
    by (simp add: raw_eval)
  have "\<exists>u k tok rest.
          URL_new (whatsapp_raw (trim '' chat.whatsapp.com//AbCdEfGhIj1234/more?x=1 '')) = Inr u
        \<and> hostname u = ''chat.whatsapp.com''
        \<and> pathname u = replicate k CHR ''/'' @ tok @ rest
        \<and> (rest = [] \<or> hd rest = CHR ''/'')
        \<and> 10 \<le> length tok \<and> list_all is_token_char tok
        \<and> ''https://chat.whatsapp.com/AbCdEfGhIj1234'' = ''https://chat.whatsapp.com/'' @ tok"
    unfolding raw URL_new_whatsapp_example
    by (intro exI[of _ ?u] exI[of _ 2] exI[of _ "''AbCdEfGhIj1234''"] exI[of _ "''/more''"])
       (simp add: is_token_char_def code_unit_def numeral_2_eq_2)
  then have 1: "parseWhatsAppGroupLink URL_new '' chat.whatsapp.com//AbCdEfGhIj1234/more?x=1 '' =
      Inr (Some ''https://chat.whatsapp.com/AbCdEfGhIj1234'')"
    using invite_link_contract[OF URL_new_follows_whatwg,
        of "'' chat.whatsapp.com//AbCdEfGhIj1234/more?x=1 ''"
           "''https://chat.whatsapp.com/AbCdEfGhIj1234''" "''AbCdEfGhIj''"]
    by blast
  have 2: "parseWhatsAppGroupLink URL_new ''https://chat.whatsapp.com/AbCdEfGhIj'' =
      Inr (Some ''https://chat.whatsapp.com/AbCdEfGhIj'')"
    using invite_link_contract[OF URL_new_follows_whatwg, of _ _ "''AbCdEfGhIj''"]
    by (simp add: is_token_char_def code_unit_def)
  have 3: "parseWhatsAppGroupLink URL_new ''https://chat.whatsapp.com/AbCdEfGhI'' = Inr None"
    using invite_link_contract[OF URL_new_follows_whatwg, of _ _ "''AbCdEfGhI''"]
    by (simp add: is_token_char_def code_unit_def)
  from 1 2 3 show ?thesis by simp
qed

section \<open>Rejected codes and redirect links\<close>

lemma meet_raw_plain:
  assumes "CHR '':'' \<notin> set s" "CHR ''.'' \<notin> set s"
  shows "meet_raw s = s"
proof -
  have "\<not> prefix p s" if "CHR '':'' \<in> set p \<or> CHR ''.'' \<in> set p" for p
    using that assms set_mono_prefix by blast
  then show ?thesis by (simp add: meet_raw_def startsWith_def)
qed

lemma letters_and_hyphens:
  assumes "\<forall>c \<in> set s. is_ascii_letter c \<or> c = CHR ''-''"
  shows "CHR '':'' \<notin> set s" "CHR ''.'' \<notin> set s" "list_all is_token_char s"
    "s = [] \<or> (\<not> is_js_whitespace (hd s) \<and> \<not> is_js_whitespace (last s))"
proof -
  have tok: "\<forall>c \<in> set s. is_token_char c"
    using assms letter_is_token by (auto simp: is_token_char_def)
  then show "list_all is_token_char s" by (simp add: list_all_iff)
  show "CHR '':'' \<notin> set s" "CHR ''.'' \<notin> set s" using tok token_char_plain(9,11) by blast+
  show "s = [] \<or> (\<not> is_js_whitespace (hd s) \<and> \<not> is_js_whitespace (last s))"
    using tok token_char_plain(1) hd_in_set last_in_set by blast
qed

text \<open>
  Claim C7. \<open>parseGoogleMeet\<close> rejects \<open>ab-cdef-ghi\<close> and \<open>abc-de-fgh\<close>, and more
  generally every input whose trimmed form is made of ASCII letters and hyphens and is
  not three, four and three letters between hyphens: the result is \<open>null\<close>.
\<close>

theorem wrong_segment_lengths_rejected:
  assumes "follows_whatwg new_URL"
  shows "parseGoogleMeet new_URL ''ab-cdef-ghi'' = Inr None
       \<and> parseGoogleMeet new_URL ''abc-de-fgh'' = Inr None
       \<and> ((\<forall>c \<in> set (trim input). is_ascii_letter c \<or> c = CHR ''-'')
            \<and> match_meeting_code (trim input) = None
          \<longrightarrow> parseGoogleMeet new_URL input = Inr None)"
proof -
  have gen: "parseGoogleMeet new_URL i = Inr None"
    if chars: "\<forall>c \<in> set (trim i). is_ascii_letter c \<or> c = CHR ''-''"
      and nc: "match_meeting_code (trim i) = None" for i
  proof -
    note l = letters_and_hyphens[OF chars]
    have "new_URL (meet_raw (trim i)) = Inl TypeError"
      using follows_whatwg_no_colon[OF assms l(1)] meet_raw_plain[OF l(1,2)] by simp
    then show ?thesis using nc by (simp add: parseGoogleMeet_def Let_def)
  qed
  have 1: "parseGoogleMeet new_URL ''ab-cdef-ghi'' = Inr None"
    by (rule gen) (simp_all add: raw_eval)
  have 2: "parseGoogleMeet new_URL ''abc-de-fgh'' = Inr None"
    by (rule gen) (simp_all add: raw_eval)
  from 1 2 gen show ?thesis by blast
qed

theorem wrong_segment_lengths_rejected_witness:
  "parseGoogleMeet URL_new ''ab-cdef-ghi'' = Inr None
   \<and> parseGoogleMeet URL_new ''abc-de-fgh'' = Inr None
   \<and> parseGoogleMeet URL_new '' abcd-efg-hij-k '' = Inr None"
  using wrong_segment_lengths_rejected[OF URL_new_follows_whatwg, of "'' abcd-efg-hij-k ''"]
  by (simp add: raw_eval)

lemma meeting_code_plain:
  assumes "match_meeting_code c \<noteq> None"
  shows "list_all is_token_char c" "trim c = c" "c \<noteq> []" "strip_trailing_slashes c = c"
    "match_meeting_code c = Some c"
proof -
  obtain m where m: "match_meeting_code c = Some m" using assms by auto
  note l = letters_and_hyphens[OF meeting_code_chars[OF m]]
  show "list_all is_token_char c" by (rule l(3))
  show "trim c = c" by (rule trim_id[OF l(4)])
  show ne: "c \<noteq> []" using match_meeting_code_Some[OF m] by auto
  show "strip_trailing_slashes c = c"
    using strip_trailing_slashes_token[OF l(3) ne, of "[]"] by simp
  show "match_meeting_code c = Some c" using m match_meeting_code_Some[OF m] by simp
qed

lemma meet_redirect_code:
  assumes "match_meeting_code c \<noteq> None"
  shows "meet_of_URL \<lparr> hostname = ''g.co'', pathname = ''/meet/'' @ c, href = h \<rparr> =
     Some (Code (''https://meet.google.com/'' @ toLowerCase c) (toLowerCase c))"
proof -
  note c = meeting_code_plain[OF assms]
  have l: "toLowerCase ''/meet/'' = ''/meet/''"
    by (simp add: toLowerCase_def lower_char_def code_unit_def)
  have "meet_of_URL \<lparr> hostname = ''g.co'', pathname = ''/meet/'' @ c, href = h \<rparr>
          = meet_redirect \<lparr> hostname = ''g.co'', pathname = ''/meet/'' @ c, href = h \<rparr>"
    by (rule meet_of_URL_redirect[OF _ _ l]) simp_all
  then show ?thesis using c(4,5) by (simp add: meet_redirect_def Let_def)
qed

text \<open>
  Claim C5. For every meeting code \<open>c\<close>, in any letter case, the redirect URL
  \<open>https://g.co/meet/<c>\<close> and its form without the scheme, \<open>g.co/meet/<c>\<close>, resolve
  to the same result as the bare code \<open>c\<close>: the \<open>Code\<close> variant with the code in lower
  case and the \<open>url\<close> \<open>https://meet.google.com/\<close> followed by it.
\<close>

theorem redirect_unwrapping:
  assumes "follows_whatwg new_URL" "match_meeting_code c \<noteq> None"
  shows "parseGoogleMeet new_URL (''https://g.co/meet/'' @ c) = parseGoogleMeet new_URL c
       \<and> parseGoogleMeet new_URL (''g.co/meet/'' @ c) = parseGoogleMeet new_URL c
       \<and> parseGoogleMeet new_URL c =
           Inr (Some (Code (''https://meet.google.com/'' @ toLowerCase c) (toLowerCase c)))"
proof -
  note c = meeting_code_plain[OF assms(2)]
  have bare: "parseGoogleMeet new_URL c =
           Inr (Some (Code (''https://meet.google.com/'' @ toLowerCase c) (toLowerCase c)))"
    using parseGoogleMeet_bare_code[of c new_URL] assms(2) c(2) by simp
  have pt: "path_text (''meet/'' @ c)"
    unfolding token_path_text[OF c(1)] by (simp add: path_text_def is_token_char_def code_unit_def)
  have "parseGoogleMeet new_URL (''https://g.co/meet/'' @ c) =
          Inr (meet_of_URL \<lparr> hostname = ''g.co'', pathname = ''/meet/'' @ c,
                             href = ''https://g.co/meet/'' @ c \<rparr>)"
    using parseGoogleMeet_canonical_url[OF assms(1) _ pt, of "''g.co''"] by simp
  then have url: "parseGoogleMeet new_URL (''https://g.co/meet/'' @ c) =
           Inr (Some (Code (''https://meet.google.com/'' @ toLowerCase c) (toLowerCase c)))"
    by (simp only: meet_redirect_code[OF assms(2)])
  have "parseGoogleMeet new_URL (''g.co/meet/'' @ c) =
          parseGoogleMeet new_URL (''https://g.co/meet/'' @ c)"
    by (rule schemeless_same(1)) (use c(1) in \<open>simp add: token_list_path_text\<close>)
  with bare url show ?thesis by simp
qed

theorem redirect_unwrapping_witness:
  "parseGoogleMeet URL_new ''https://g.co/meet/Abc-Defg-Hij'' =
     Inr (Some (Code ''https://meet.google.com/abc-defg-hij'' ''abc-defg-hij''))
   \<and> parseGoogleMeet URL_new ''g.co/meet/Abc-Defg-Hij'' =
     Inr (Some (Code ''https://meet.google.com/abc-defg-hij'' ''abc-defg-hij''))
   \<and> parseGoogleMeet URL_new ''Abc-Defg-Hij'' =
     Inr (Some (Code ''https://meet.google.com/abc-defg-hij'' ''abc-defg-hij''))"
  using redirect_unwrapping[OF URL_new_follows_whatwg, of "''Abc-Defg-Hij''"]
  by (simp add: match_meeting_code_def is_ascii_letter_def code_unit_def toLowerCase_def
      lower_char_def char_of_nat_bits)

section \<open>The url of a Meet result\<close>

lemma meet_of_URL_Some:
  assumes "meet_of_URL u = Some r"
  shows "(hostname u = ''g.co'' \<and> startsWith (toLowerCase (pathname u)) ''/meet/''
            \<and> meet_redirect u = Some r)
       \<or> (hostname u = ''meet.google.com'' \<and> meet_primary u = Some r)"
  using assms by (auto simp: meet_of_URL_def split: if_splits)

lemma meet_redirect_alt:
  "meet_redirect u =
     (case match_meeting_code (strip_trailing_slashes (drop 6 (pathname u))) of
        Some m \<Rightarrow> Some (Code (''https://meet.google.com/'' @ toLowerCase m) (toLowerCase m))
      | None \<Rightarrow>
          if strip_trailing_slashes (drop 6 (pathname u)) \<noteq> []
          then Some (Url (href u) (''/meet/'' @ strip_trailing_slashes (drop 6 (pathname u))))
          else None)"
proof -
  have six: "length ''/meet/'' = 6" by simp
  show ?thesis unfolding meet_redirect_def Let_def six ..
qed

lemma meet_redirect_Some:
  assumes "meet_redirect u = Some r"
  shows "(\<exists>m. match_meeting_code m \<noteq> None
            \<and> r = Code (''https://meet.google.com/'' @ toLowerCase m) (toLowerCase m))
       \<or> (\<exists>rest. rest \<noteq> [] \<and> rest = strip_trailing_slashes (drop 6 (pathname u))
            \<and> match_meeting_code rest = None
            \<and> r = Url (href u) (''/meet/'' @ rest))"
proof (cases "match_meeting_code (strip_trailing_slashes (drop 6 (pathname u)))")
  case None
  let ?rest = "strip_trailing_slashes (drop 6 (pathname u))"
  have "meet_redirect u = (if ?rest \<noteq> [] then Some (Url (href u) (''/meet/'' @ ?rest)) else None)"
    using None by (simp add: meet_redirect_alt)
  with assms have "?rest \<noteq> []" "r = Url (href u) (''/meet/'' @ ?rest)"
    by (auto split: if_splits)
  with None show ?thesis by blast
next
  case (Some m)
  then have m: "match_meeting_code m \<noteq> None" using match_meeting_code_Some[OF Some] by simp
  have "meet_redirect u = Some (Code (''https://meet.google.com/'' @ toLowerCase m) (toLowerCase m))"
    using Some by (simp add: meet_redirect_alt)
  with assms m show ?thesis by auto
qed

lemma match_lookup_Some:
  assumes "match_lookup p = Some t"
  shows "t \<noteq> []" "CHR ''/'' \<notin> set t" "p = take 8 p @ t" "map ascii_lower (take 8 p) = ''/lookup/''"
proof -
  from assms have t: "t = drop 8 p" and rest: "t \<noteq> []" "CHR ''/'' \<notin> set t"
    "map ascii_lower (take 8 p) = ''/lookup/''"
    by (auto simp: match_lookup_def Let_def split: if_splits)
  from rest show "t \<noteq> []" "CHR ''/'' \<notin> set t" "map ascii_lower (take 8 p) = ''/lookup/''"
    by blast+
  show "p = take 8 p @ t" unfolding t by simp
qed

lemma match_code_path_Some:
  assumes "match_code_path p = Some m"
  shows "p = CHR ''/'' # m" "match_meeting_code m \<noteq> None"
proof -
  from assms obtain cs where p: "p = CHR ''/'' # cs" and m: "match_meeting_code cs = Some m"
    by (auto simp: match_code_path_def split: list.splits if_splits)
  from match_meeting_code_Some[OF m] p m
  show "p = CHR ''/'' # m" "match_meeting_code m \<noteq> None" by auto
qed

lemma meet_primary_Some:
  assumes "meet_primary u = Some r"
  shows "(\<exists>t. match_lookup (strip_trailing_slashes (pathname u)) = Some t
            \<and> r = Lookup (''https://meet.google.com/lookup/'' @ t) t)
       \<or> (\<exists>m. match_meeting_code m \<noteq> None
            \<and> r = Code (''https://meet.google.com/'' @ toLowerCase m) (toLowerCase m))
       \<or> (\<exists>p. p = strip_trailing_slashes (pathname u) \<and> match_lookup p = None
            \<and> match_code_path p = None \<and> p \<noteq> [] \<and> p \<noteq> ''/''
            \<and> r = Url (''https://meet.google.com'' @ p) p)"
proof (cases "match_lookup (strip_trailing_slashes (pathname u))")
  case (Some t)
  with assms show ?thesis by (auto simp: meet_primary_def Let_def)
next
  case None
  show ?thesis
  proof (cases "match_code_path (strip_trailing_slashes (pathname u))")
    case (Some m)
    from match_code_path_Some(2)[OF Some] assms None Some show ?thesis
      by (auto simp: meet_primary_def Let_def)
  next
    case N: None
    with assms None show ?thesis
      by (auto simp: meet_primary_def Let_def split: if_splits)
  qed
qed



lemma lowered_code:
  assumes "match_meeting_code m \<noteq> None"
  shows "match_meeting_code (toLowerCase m) \<noteq> None" "path_text (toLowerCase m)"
proof -
  show c: "match_meeting_code (toLowerCase m) \<noteq> None"
    using assms by (simp add: match_meeting_code_toLowerCase)
  show "path_text (toLowerCase m)"
    using meeting_code_plain(1)[OF c] by (rule token_list_path_text)
qed

text \<open>
  Claim C1, as the code has it. When \<open>parseGoogleMeet\<close> succeeds, the \<open>url\<close> of a
  \<open>Code\<close> result is \<open>https://meet.google.com/\<close> followed by the code, which the URL
  standard reads as an \<open>https\<close> URL on the host \<open>meet.google.com\<close>; the \<open>url\<close> of a
  \<open>Lookup\<close> result is \<open>https://meet.google.com/lookup/\<close> followed by the token; the
  \<open>url\<close> of a \<open>Url\<close> result on the primary host is \<open>https://meet.google.com\<close> followed
  by the path. The \<open>url\<close> of the \<open>Url\<close> result of the redirect branch is what the
  constructor's \<open>toString()\<close> gives for the input URL, whose host is \<open>g.co\<close>.
\<close>

theorem meet_url_shape:
  assumes "parseGoogleMeet new_URL input = Inr (Some r)"
  shows "case r of
           Code s c \<Rightarrow>
             s = ''https://meet.google.com/'' @ c
             \<and> whatwg_parse s = Some (Inr \<lparr> hostname = ''meet.google.com'',
                                             pathname = CHR ''/'' # c, href = s \<rparr>)
         | Lookup s t \<Rightarrow> s = ''https://meet.google.com/lookup/'' @ t \<and> t \<noteq> [] \<and> CHR ''/'' \<notin> set t
         | Url s p \<Rightarrow>
             (s = ''https://meet.google.com'' @ p \<and> p \<noteq> [] \<and> p \<noteq> ''/'')
             \<or> (\<exists>u. new_URL (meet_raw (trim input)) = Inr u \<and> hostname u = ''g.co''
                    \<and> s = href u)"
proof -
  have code: "case Code (''https://meet.google.com/'' @ toLowerCase m) (toLowerCase m) of
           Code s c \<Rightarrow>
             s = ''https://meet.google.com/'' @ c
             \<and> whatwg_parse s = Some (Inr \<lparr> hostname = ''meet.google.com'',
                                             pathname = CHR ''/'' # c, href = s \<rparr>)
         | Lookup s t \<Rightarrow> s = ''https://meet.google.com/lookup/'' @ t \<and> t \<noteq> [] \<and> CHR ''/'' \<notin> set t
         | Url s p \<Rightarrow>
             (s = ''https://meet.google.com'' @ p \<and> p \<noteq> [] \<and> p \<noteq> ''/'')
             \<or> (\<exists>u. new_URL (meet_raw (trim input)) = Inr u \<and> hostname u = ''g.co''
                    \<and> s = href u)"
    if "match_meeting_code m \<noteq> None" for m
    using whatwg_parse_simple[OF _ lowered_code(2)[OF that], of "''meet.google.com''"] by simp
  from parseGoogleMeet_Some[OF assms] show ?thesis
  proof (elim disjE conjE exE)
    assume "match_meeting_code (trim input) \<noteq> None"
      "r = Code (''https://meet.google.com/'' @ toLowerCase (trim input)) (toLowerCase (trim input))"
    then show ?thesis using code by simp
  next
    fix u assume u: "new_URL (meet_raw (trim input)) = Inr u" and r: "meet_of_URL u = Some r"
    from meet_of_URL_Some[OF r] show ?thesis
    proof (elim disjE conjE)
      assume h: "hostname u = ''g.co''" and "meet_redirect u = Some r"
      from meet_redirect_Some[OF this(2)] show ?thesis
      proof (elim disjE exE conjE)
        fix m assume "match_meeting_code m \<noteq> None"
          "r = Code (''https://meet.google.com/'' @ toLowerCase m) (toLowerCase m)"
        then show ?thesis using code by simp
      next
        fix rest assume "r = Url (href u) (''/meet/'' @ rest)"
        then show ?thesis using u h by auto
      qed
    next
      assume "meet_primary u = Some r"
      from meet_primary_Some[OF this] show ?thesis
      proof (elim disjE exE conjE)
        fix t assume "match_lookup (strip_trailing_slashes (pathname u)) = Some t"
          "r = Lookup (''https://meet.google.com/lookup/'' @ t) t"
        then show ?thesis using match_lookup_Some(1,2) by simp
      next
        fix m assume "match_meeting_code m \<noteq> None"
          "r = Code (''https://meet.google.com/'' @ toLowerCase m) (toLowerCase m)"
        then show ?thesis using code by simp
      next
        fix p assume "p \<noteq> []" "p \<noteq> ''/''" "r = Url (''https://meet.google.com'' @ p) p"
        then show ?thesis by simp
      qed
    qed
  qed
qed

lemmas meet_eval = parseGoogleMeet_def trim_def meet_raw_def startsWith_def
  match_meeting_code_def whatwg_eval meet_of_URL_def meet_primary_def
  meet_redirect_alt match_lookup_def match_code_path_def strip_trailing_slashes_def
  toLowerCase_def lower_char_def char_of_nat_bits

lemma meet_examples:
  "parseGoogleMeet URL_new ''meet.google.com/new/'' =
     Inr (Some (Url ''https://meet.google.com/new'' ''/new''))"
  "parseGoogleMeet URL_new ''https://g.co/meet/room1'' =
     Inr (Some (Url ''https://g.co/meet/room1'' ''/meet/room1''))"
  "parseGoogleMeet URL_new ''http://g.co/meet/room1'' =
     Inr (Some (Url ''http://g.co/meet/room1'' ''/meet/room1''))"
  by (simp_all add: meet_eval)

theorem meet_url_shape_witness:
  "parseGoogleMeet URL_new ''meet.google.com/new/'' =
     Inr (Some (Url ''https://meet.google.com/new'' ''/new''))
   \<and> ''https://meet.google.com/new'' = ''https://meet.google.com'' @ ''/new''"
  using meet_url_shape[of URL_new "''meet.google.com/new/''"
      "Url ''https://meet.google.com/new'' ''/new''"] meet_examples(1)
  by simp

text \<open>
  Claim C1 as stated fails on the redirect branch: the \<open>url\<close> of its \<open>Url\<close> result is
  the input URL as the constructor serializes it, on the host \<open>g.co\<close> and with the
  scheme of the input.
\<close>

theorem canonical_host_counterexample:
  "parseGoogleMeet URL_new ''https://g.co/meet/room1'' =
     Inr (Some (Url ''https://g.co/meet/room1'' ''/meet/room1''))
   \<and> URL_new ''https://g.co/meet/room1'' =
     Inr \<lparr> hostname = ''g.co'', pathname = ''/meet/room1'', href = ''https://g.co/meet/room1'' \<rparr>
   \<and> parseGoogleMeet URL_new ''http://g.co/meet/room1'' =
     Inr (Some (Url ''http://g.co/meet/room1'' ''/meet/room1''))"
  by (simp add: meet_eval)


section \<open>Resolving a result again\<close>


























end
